theory Spec2Isabelle
  imports Main
begin

section \<open>The grid model\<close>

text \<open>
  \<^verbatim>\<open>export type Board = (number | null)[][];\<close>
  A cell is \<open>None\<close> for \<^verbatim>\<open>null\<close> and \<open>Some v\<close> for the number \<open>v\<close>; a board is
  the array of its rows. The engine only ever reads \<^verbatim>\<open>board[r][c]\<close> with
  \<open>r, c < 9\<close>, which is \<open>board ! r ! c\<close> on a board of nine rows of nine cells
  (\<open>grid9\<close>); outside that shape the JavaScript read would fail, so every
  property below is stated for \<open>grid9\<close> boards and in-range positions.
\<close>

type_synonym cell = "int option"
type_synonym board = "cell list list"

definition grid9 :: "board \<Rightarrow> bool" where
  "grid9 board = (length board = 9 \<and> list_all (\<lambda>row. length row = 9) board)"

text \<open>The data model's cell values: empty, or a number in 1..9.\<close>

definition cellsInRange :: "board \<Rightarrow> bool" where
  "cellsInRange board =
     list_all (list_all (\<lambda>v. v = None \<or> v \<in> Some ` {1..9})) board"

section \<open>Placement validator\<close>

text \<open>
  \<^verbatim>\<open>function isValidPlacement(board, row, col, num)\<close>: three scans, each
  returning false at the first cell that holds \<open>num\<close>.
\<close>

definition isValidPlacement :: "board \<Rightarrow> nat \<Rightarrow> nat \<Rightarrow> int \<Rightarrow> bool" where
  "isValidPlacement board row col num =
     (if list_ex (\<lambda>x. board ! row ! x = Some num) [0..<9] then False
      else if list_ex (\<lambda>x. board ! x ! col = Some num) [0..<9] then False
      else
        let startRow = row - (row mod 3);
            startCol = col - (col mod 3)
        in if list_ex (\<lambda>i. list_ex (\<lambda>j.
                  board ! (i + startRow) ! (j + startCol) = Some num) [0..<3]) [0..<3]
           then False
           else True)"

section \<open>Single-cell conflict test and solved-state checker\<close>

text \<open>
  \<^verbatim>\<open>isCellInConflict(board, row, col)\<close>: the row scan skips \<open>c = col\<close>, the
  column scan skips \<open>r = row\<close>, the box scan skips every cell with \<open>r = row\<close> or
  \<open>c = col\<close>.
\<close>

definition isCellInConflict :: "board \<Rightarrow> nat \<Rightarrow> nat \<Rightarrow> bool" where
  "isCellInConflict board row col =
     (let value = board ! row ! col in
      if value = None then False
      else if list_ex (\<lambda>c. c \<noteq> col \<and> board ! row ! c = value) [0..<9] then True
      else if list_ex (\<lambda>r. r \<noteq> row \<and> board ! r ! col = value) [0..<9] then True
      else
        let boxStartRow = (row div 3) * 3;
            boxStartCol = (col div 3) * 3
        in if list_ex (\<lambda>r. list_ex (\<lambda>c.
                  r \<noteq> row \<and> c \<noteq> col \<and> board ! r ! c = value)
                    [boxStartCol..<boxStartCol + 3]) [boxStartRow..<boxStartRow + 3]
           then True
           else False)"

text \<open>\<^verbatim>\<open>checkSolution(board)\<close>: false at the first empty or conflicting cell.\<close>

definition checkSolution :: "board \<Rightarrow> bool" where
  "checkSolution board =
     (if list_ex (\<lambda>i. list_ex (\<lambda>j.
            board ! i ! j = None \<or> isCellInConflict board i j) [0..<9]) [0..<9]
      then False
      else True)"

section \<open>Vocabulary of the specification\<close>

text \<open>
  Two positions share a unit when they lie in the same row, the same column or
  the same 3x3 box (box index \<open>(r div 3) * 3 + c div 3\<close>).
\<close>

definition sameUnit :: "nat \<times> nat \<Rightarrow> nat \<times> nat \<Rightarrow> bool" where
  "sameUnit p q =
     (fst p = fst q \<or> snd p = snd q \<or>
      (fst p div 3 = fst q div 3 \<and> snd p div 3 = snd q div 3))"

definition positions :: "(nat \<times> nat) list" where
  "positions = List.product [0..<9] [0..<9]"

definition cellAt :: "board \<Rightarrow> nat \<times> nat \<Rightarrow> cell" where
  "cellAt board p = board ! fst p ! snd p"

text \<open>\<open>v\<close> occurs in a unit of \<open>(row, col)\<close>, the cell \<open>(row, col)\<close> itself included.\<close>

definition occursInUnits :: "board \<Rightarrow> nat \<Rightarrow> nat \<Rightarrow> int \<Rightarrow> bool" where
  "occursInUnits board row col v =
     list_ex (\<lambda>q. sameUnit (row, col) q \<and> cellAt board q = Some v) positions"

text \<open>\<open>v\<close> occurs in a unit of \<open>(row, col)\<close> at a cell other than \<open>(row, col)\<close>.\<close>

definition occursElsewhere :: "board \<Rightarrow> nat \<Rightarrow> nat \<Rightarrow> int \<Rightarrow> bool" where
  "occursElsewhere board row col v =
     list_ex (\<lambda>q. q \<noteq> (row, col) \<and> sameUnit (row, col) q \<and> cellAt board q = Some v)
       positions"

text \<open>
  The cell \<open>(row, col)\<close> is filled and its value occurs at another cell of one
  of its units.
\<close>

definition duplicated :: "board \<Rightarrow> nat \<Rightarrow> nat \<Rightarrow> bool" where
  "duplicated board row col =
     (cellAt board (row, col) \<noteq> None \<and>
      list_ex (\<lambda>q. q \<noteq> (row, col) \<and> sameUnit (row, col) q \<and>
                   cellAt board q = cellAt board (row, col)) positions)"

text \<open>The board with no cell filled, and the same board with a 5 at (0, 0).\<close>

definition emptyBoard :: board where
  "emptyBoard = replicate 9 (replicate 9 None)"

definition loneFive :: board where
  "loneFive = emptyBoard[0 := (emptyBoard ! 0)[0 := Some 5]]"

text \<open>
  Example boards: two 7s in row 0 (columns 0 and 3) of an otherwise empty board,
  and a completely filled board with every unit a permutation of 1..9.
\<close>

definition twoSevens :: board where
  "twoSevens = (replicate 9 None)[0 := Some 7, 3 := Some 7] # replicate 8 (replicate 9 None)"

definition solvedExample :: board where
  "solvedExample =
     [[Some 1, Some 2, Some 3, Some 4, Some 5, Some 6, Some 7, Some 8, Some 9],
      [Some 4, Some 5, Some 6, Some 7, Some 8, Some 9, Some 1, Some 2, Some 3],
      [Some 7, Some 8, Some 9, Some 1, Some 2, Some 3, Some 4, Some 5, Some 6],
      [Some 2, Some 3, Some 4, Some 5, Some 6, Some 7, Some 8, Some 9, Some 1],
      [Some 5, Some 6, Some 7, Some 8, Some 9, Some 1, Some 2, Some 3, Some 4],
      [Some 8, Some 9, Some 1, Some 2, Some 3, Some 4, Some 5, Some 6, Some 7],
      [Some 3, Some 4, Some 5, Some 6, Some 7, Some 8, Some 9, Some 1, Some 2],
      [Some 6, Some 7, Some 8, Some 9, Some 1, Some 2, Some 3, Some 4, Some 5],
      [Some 9, Some 1, Some 2, Some 3, Some 4, Some 5, Some 6, Some 7, Some 8]]"

section \<open>Conflict scanner\<close>

text \<open>
  The keys of the conflict set are the template strings \<^verbatim>\<open>`${r}-${c}`\<close>: the
  decimal digits of \<open>r\<close>, a dash, the decimal digits of \<open>c\<close>.
\<close>

definition digitChar :: "nat \<Rightarrow> char" where
  "digitChar d = ''0123456789'' ! d"

fun showNat :: "nat \<Rightarrow> string" where
  "showNat n = (if n < 10 then [digitChar n] else showNat (n div 10) @ [digitChar (n mod 10)])"

declare showNat.simps [simp del]

definition key :: "nat \<Rightarrow> nat \<Rightarrow> string" where
  "key r c = showNat r @ ''-'' @ showNat c"

text \<open>
  \<^verbatim>\<open>board[r].map((val, c) => val === num ? c : -1).filter(c => c !== -1)\<close>
\<close>

definition rowIndices :: "board \<Rightarrow> nat \<Rightarrow> int \<Rightarrow> int list" where
  "rowIndices board r num =
     filter (\<lambda>c. c \<noteq> - 1)
       (map (\<lambda>(c, val). if val = Some num then int c else - 1) (enumerate 0 (board ! r)))"

text \<open>
  \<^verbatim>\<open>board.map((row, r) => row[c] === num ? r : -1).filter(r => r !== -1)\<close>
\<close>

definition colIndices :: "board \<Rightarrow> nat \<Rightarrow> int \<Rightarrow> int list" where
  "colIndices board c num =
     filter (\<lambda>r. r \<noteq> - 1)
       (map (\<lambda>(r, row). if row ! c = Some num then int r else - 1) (enumerate 0 board))"

text \<open>
  The nested iteration over the row and column offsets of a box, pushing
  \<^verbatim>\<open>{r, c}\<close> for every cell that holds \<open>num\<close>, in the order \<open>r_off\<close>
  outer, \<open>c_off\<close> inner.
\<close>

definition boxIndices :: "board \<Rightarrow> nat \<Rightarrow> nat \<Rightarrow> int \<Rightarrow> (nat \<times> nat) list" where
  "boxIndices board br bc num =
     filter (\<lambda>(r, c). board ! r ! c = Some num)
       (map (\<lambda>(r_off, c_off). (br * 3 + r_off, bc * 3 + c_off))
          (List.product [0..<3] [0..<3]))"

text \<open>The three passes for one value \<open>num\<close>, each adding to the set built so far.\<close>

definition addRows :: "board \<Rightarrow> int \<Rightarrow> string set \<Rightarrow> string set" where
  "addRows board num conflicts =
     fold (\<lambda>r conflicts.
        let indices = rowIndices board r num
        in if length indices > 1
           then fold (\<lambda>c conflicts. insert (key r (nat c)) conflicts) indices conflicts
           else conflicts) [0..<9] conflicts"

definition addCols :: "board \<Rightarrow> int \<Rightarrow> string set \<Rightarrow> string set" where
  "addCols board num conflicts =
     fold (\<lambda>c conflicts.
        let indices = colIndices board c num
        in if length indices > 1
           then fold (\<lambda>r conflicts. insert (key (nat r) c) conflicts) indices conflicts
           else conflicts) [0..<9] conflicts"

definition addBoxes :: "board \<Rightarrow> int \<Rightarrow> string set \<Rightarrow> string set" where
  "addBoxes board num conflicts =
     fold (\<lambda>br conflicts. fold (\<lambda>bc conflicts.
        let indices = boxIndices board br bc num
        in if length indices > 1
           then fold (\<lambda>(r, c) conflicts. insert (key r c) conflicts) indices conflicts
           else conflicts) [0..<3] conflicts) [0..<3] conflicts"

text \<open>\<^verbatim>\<open>findAllConflicts(board)\<close>: for each of the numbers 1..9, rows, columns, boxes.\<close>

definition findAllConflicts :: "board \<Rightarrow> string set" where
  "findAllConflicts board =
     fold (\<lambda>num conflicts. addBoxes board num (addCols board num (addRows board num conflicts)))
       [1, 2, 3, 4, 5, 6, 7, 8, 9] {}"

section \<open>Solution generator\<close>

text \<open>
  The random source. \<^verbatim>\<open>Math.random()\<close> is the environment's: the model takes
  the sequence of its results as a parameter \<open>rng\<close> and counts the calls made so
  far in \<open>k\<close>. The engine uses a result only as
  \<^verbatim>\<open>Math.floor(Math.random() * n)\<close>, an integer in \<open>0..n-1\<close>; draw number \<open>k\<close>
  is read as the natural number \<open>rng k\<close> and the floor as its residue
  modulo \<open>n\<close>, so every index below \<open>n\<close> can occur and no other.
\<close>

type_synonym rnd = "nat \<Rightarrow> nat"

definition randomBelow :: "rnd \<Rightarrow> nat \<Rightarrow> nat \<Rightarrow> nat" where
  "randomBelow rng k n = rng k mod n"

text \<open>\<^verbatim>\<open>board[row][col] = v\<close>\<close>

definition setCell :: "board \<Rightarrow> nat \<Rightarrow> nat \<Rightarrow> cell \<Rightarrow> board" where
  "setCell board row col v = board[row := (board ! row)[col := v]]"

text \<open>\<^verbatim>\<open>findEmptyCell(board)\<close>: the first empty cell in row-major order, or null.\<close>

definition findEmptyCell :: "board \<Rightarrow> (nat \<times> nat) option" where
  "findEmptyCell board =
     find (\<lambda>(i, j). board ! i ! j = None) (List.product [0..<9] [0..<9])"

text \<open>
  The shuffle loop of \<^verbatim>\<open>generateSolution\<close>,
  \<^verbatim>\<open>for (let i = numbers.length - 1; i > 0; i--)\<close>, swapping \<open>numbers[i]\<close> and
  \<open>numbers[j]\<close> for a random \<open>j \<le> i\<close>. It returns the array and the new count
  of draws.
\<close>

fun shuffle :: "rnd \<Rightarrow> nat \<Rightarrow> int list \<Rightarrow> nat \<Rightarrow> int list \<times> nat" where
  "shuffle rng k numbers 0 = (numbers, k)"
| "shuffle rng k numbers (Suc i') =
     (let i = Suc i';
          j = randomBelow rng k (i + 1)
      in shuffle rng (Suc k) (numbers[i := numbers ! j, j := numbers ! i]) i')"

text \<open>
  The candidate loop \<^verbatim>\<open>for (const num of numbers)\<close>. \<open>rec\<close> is the recursive
  call \<^verbatim>\<open>generateSolution(board)\<close>; a call returns its result, the board as it
  left it, and the count of draws. The board is mutated in place in the source,
  so the loop goes on with the board the failed call returned, its cell reset to
  null.
\<close>

fun tryNumbers ::
  "(nat \<Rightarrow> board \<Rightarrow> (bool \<times> board \<times> nat) option) \<Rightarrow> nat \<Rightarrow> board \<Rightarrow> nat \<Rightarrow> nat \<Rightarrow>
     int list \<Rightarrow> (bool \<times> board \<times> nat) option" where
  "tryNumbers rec k board row col [] = Some (False, board, k)"
| "tryNumbers rec k board row col (num # rest) =
     (if isValidPlacement board row col num
      then (case rec k (setCell board row col (Some num)) of
              None \<Rightarrow> None
            | Some (True, board', k') \<Rightarrow> Some (True, board', k')
            | Some (False, board', k') \<Rightarrow>
                tryNumbers rec k' (setCell board' row col None) row col rest)
      else tryNumbers rec k board row col rest)"

text \<open>
  \<^verbatim>\<open>generateSolution(board)\<close>. The fuel bounds the depth of the recursion: a
  call that would recurse deeper than the fuel allows has the value \<open>None\<close>.
\<close>

primrec generateSolution ::
  "nat \<Rightarrow> rnd \<Rightarrow> nat \<Rightarrow> board \<Rightarrow> (bool \<times> board \<times> nat) option" where
  "generateSolution 0 rng k board = None"
| "generateSolution (Suc fuel) rng k board =
     (case findEmptyCell board of
        None \<Rightarrow> Some (True, board, k)
      | Some (row, col) \<Rightarrow>
          (case shuffle rng k [1, 2, 3, 4, 5, 6, 7, 8, 9] 8 of
             (numbers, k') \<Rightarrow> tryNumbers (generateSolution fuel rng) k' board row col numbers))"

section \<open>Puzzle carver\<close>

text \<open>\<^verbatim>\<open>export enum Difficulty { Easy, Medium, Hard }\<close>\<close>

datatype Difficulty = Easy | Medium | Hard

text \<open>
  \<^verbatim>\<open>JSON.parse(JSON.stringify(board))\<close> builds a new array of new rows; integer
  cells and null come back as they went in, so the copy has the same cells.
\<close>

definition jsonCopy :: "board \<Rightarrow> board" where
  "jsonCopy board = map (\<lambda>row. map (\<lambda>cell. cell) row) board"

text \<open>
  The loop \<^verbatim>\<open>while (attempts > 0)\<close> of \<^verbatim>\<open>createPuzzle\<close>: two draws for each
  iteration, a cell is cleared and counted only if it is filled. Nothing in the
  source bounds the number of iterations: the fuel does, and \<open>None\<close> is a loop
  still running when the fuel is used up. The result is the puzzle and the count
  of draws.
\<close>

fun carveLoop :: "nat \<Rightarrow> rnd \<Rightarrow> nat \<Rightarrow> board \<Rightarrow> nat \<Rightarrow> (board \<times> nat) option" where
  "carveLoop 0 rng k puzzle attempts =
     (if attempts > 0 then None else Some (puzzle, k))"
| "carveLoop (Suc fuel) rng k puzzle attempts =
     (if attempts > 0
      then
        let row = randomBelow rng k 9;
            col = randomBelow rng (k + 1) 9
        in if puzzle ! row ! col \<noteq> None
           then carveLoop fuel rng (k + 2) (setCell puzzle row col None) (attempts - 1)
           else carveLoop fuel rng (k + 2) puzzle attempts
      else Some (puzzle, k))"

definition createPuzzle ::
  "nat \<Rightarrow> rnd \<Rightarrow> nat \<Rightarrow> board \<Rightarrow> Difficulty \<Rightarrow> (board \<times> nat) option" where
  "createPuzzle fuel rng k solvedBoard difficulty =
     (let puzzle = jsonCopy solvedBoard;
          removals = (if difficulty = Easy then 35 else if difficulty = Medium then 45 else 55);
          attempts = removals
      in carveLoop fuel rng k puzzle attempts)"

text \<open>
  \<^verbatim>\<open>generateSudoku(difficulty)\<close>: the result of \<^verbatim>\<open>generateSolution\<close> is not
  looked at; the carver gets a copy of the solution. One fuel bounds both the
  depth of the search and the iterations of the carving loop.
\<close>

definition generateSudoku :: "nat \<Rightarrow> rnd \<Rightarrow> nat \<Rightarrow> Difficulty \<Rightarrow> (board \<times> board) option" where
  "generateSudoku fuel rng k difficulty =
     (case generateSolution fuel rng k (replicate 9 (replicate 9 None)) of
        None \<Rightarrow> None
      | Some (found, solution, k') \<Rightarrow>
          (case createPuzzle fuel rng k' (jsonCopy solution) difficulty of
             None \<Rightarrow> None
           | Some (puzzle, k'') \<Rightarrow> Some (puzzle, solution)))"

section \<open>The carver on a store of arrays\<close>

text \<open>
  Whether \<^verbatim>\<open>createPuzzle\<close> changes the grid it is given depends on which
  arrays its writes reach, so here the arrays are objects in a store. A
  reference is an index into the store; an object is a row (an array of cells)
  or an outer array (an array of references to rows); a board is the reference
  of its outer array. \<^verbatim>\<open>new\<close> objects are appended, so the references below
  \<open>length h\<close> are those of the objects that existed in \<open>h\<close>.
\<close>

type_synonym ref = nat

datatype obj = Cells "cell list" | Refs "ref list"

type_synonym heap = "obj list"

definition alloc :: "heap \<Rightarrow> obj \<Rightarrow> heap \<times> ref" where
  "alloc h ob = (h @ [ob], length h)"

definition rowsOf :: "heap \<Rightarrow> ref \<Rightarrow> ref list option" where
  "rowsOf h b =
     (if b < length h then (case h ! b of Refs rs \<Rightarrow> Some rs | Cells cs \<Rightarrow> None) else None)"

definition cellsOf :: "heap \<Rightarrow> ref \<Rightarrow> cell list option" where
  "cellsOf h r =
     (if r < length h then (case h ! r of Cells cs \<Rightarrow> Some cs | Refs rs \<Rightarrow> None) else None)"

text \<open>The grid a board reference stands for: the cells of its rows, read through the store.\<close>

definition readBoard :: "heap \<Rightarrow> ref \<Rightarrow> board option" where
  "readBoard h b =
     (case rowsOf h b of None \<Rightarrow> None | Some rs \<Rightarrow> those (map (cellsOf h) rs))"

text \<open>
  \<^verbatim>\<open>JSON.parse(JSON.stringify(board))\<close>: the text holds the cells of the board;
  parsing it makes a new array for every row and a new outer array.
\<close>

fun allocRows :: "heap \<Rightarrow> board \<Rightarrow> heap \<times> ref list" where
  "allocRows h [] = (h, [])"
| "allocRows h (row # rows) =
     (case alloc h (Cells (map (\<lambda>cell. cell) row)) of
        (h1, r) \<Rightarrow> (case allocRows h1 rows of (h2, rs) \<Rightarrow> (h2, r # rs)))"

definition jsonCopyH :: "heap \<Rightarrow> ref \<Rightarrow> (heap \<times> ref) option" where
  "jsonCopyH h b =
     (case readBoard h b of
        None \<Rightarrow> None
      | Some rows \<Rightarrow> (case allocRows h rows of (h1, rs) \<Rightarrow> Some (alloc h1 (Refs rs))))"

text \<open>
  \<^verbatim>\<open>puzzle[row][col]\<close> read and \<^verbatim>\<open>puzzle[row][col] = v\<close>: the row array is
  looked up in the outer array, then read or updated in place. \<open>None\<close> is a board
  that is not an array of arrays, or an index out of range.
\<close>

definition getCellH :: "heap \<Rightarrow> ref \<Rightarrow> nat \<Rightarrow> nat \<Rightarrow> cell option" where
  "getCellH h b row col =
     (case rowsOf h b of
        None \<Rightarrow> None
      | Some rs \<Rightarrow>
          if row < length rs
          then (case cellsOf h (rs ! row) of
                  None \<Rightarrow> None
                | Some cs \<Rightarrow> if col < length cs then Some (cs ! col) else None)
          else None)"

definition setCellH :: "heap \<Rightarrow> ref \<Rightarrow> nat \<Rightarrow> nat \<Rightarrow> cell \<Rightarrow> heap option" where
  "setCellH h b row col v =
     (case rowsOf h b of
        None \<Rightarrow> None
      | Some rs \<Rightarrow>
          if row < length rs
          then (case cellsOf h (rs ! row) of
                  None \<Rightarrow> None
                | Some cs \<Rightarrow>
                    if col < length cs then Some (h[rs ! row := Cells (cs[col := v])]) else None)
          else None)"

text \<open>The loop and \<^verbatim>\<open>createPuzzle\<close> as above, with the puzzle in the store.\<close>

fun carveLoopH :: "nat \<Rightarrow> rnd \<Rightarrow> nat \<Rightarrow> heap \<Rightarrow> ref \<Rightarrow> nat \<Rightarrow> (heap \<times> nat) option" where
  "carveLoopH 0 rng k h puzzle attempts =
     (if attempts > 0 then None else Some (h, k))"
| "carveLoopH (Suc fuel) rng k h puzzle attempts =
     (if attempts > 0
      then
        let row = randomBelow rng k 9;
            col = randomBelow rng (k + 1) 9
        in (case getCellH h puzzle row col of
              None \<Rightarrow> None
            | Some v \<Rightarrow>
                if v \<noteq> None
                then (case setCellH h puzzle row col None of
                        None \<Rightarrow> None
                      | Some h' \<Rightarrow> carveLoopH fuel rng (k + 2) h' puzzle (attempts - 1))
                else carveLoopH fuel rng (k + 2) h puzzle attempts)
      else Some (h, k))"

definition createPuzzleH ::
  "nat \<Rightarrow> rnd \<Rightarrow> nat \<Rightarrow> heap \<Rightarrow> ref \<Rightarrow> Difficulty \<Rightarrow> (heap \<times> ref \<times> nat) option" where
  "createPuzzleH fuel rng k h solvedBoard difficulty =
     (case jsonCopyH h solvedBoard of
        None \<Rightarrow> None
      | Some (h1, puzzle) \<Rightarrow>
          let removals = (if difficulty = Easy then 35 else if difficulty = Medium then 45 else 55);
              attempts = removals
          in (case carveLoopH fuel rng k h1 puzzle attempts of
                None \<Rightarrow> None
              | Some (h2, k') \<Rightarrow> Some (h2, puzzle, k')))"

section \<open>Vocabulary for the generator and the carver\<close>

text \<open>No cell is empty; no filled cell has its value at another cell of its units.\<close>

definition isFull :: "board \<Rightarrow> bool" where
  "isFull board = list_all (\<lambda>q. cellAt board q \<noteq> None) positions"

definition conflictFree :: "board \<Rightarrow> bool" where
  "conflictFree board = list_all (\<lambda>q. \<not> duplicated board (fst q) (snd q)) positions"

text \<open>The number of empty cells, and of filled cells.\<close>

definition emptyCount :: "board \<Rightarrow> nat" where
  "emptyCount board = length (filter (\<lambda>q. cellAt board q = None) positions)"

definition filledCount :: "board \<Rightarrow> nat" where
  "filledCount board = length (filter (\<lambda>q. cellAt board q \<noteq> None) positions)"

text \<open>
  The 27 units as lists of positions: rows, columns, and boxes (box \<open>b\<close> has its
  top-left corner at \<open>((b div 3) * 3, (b mod 3) * 3)\<close>).
\<close>

definition rowUnit :: "nat \<Rightarrow> (nat \<times> nat) list" where
  "rowUnit r = map (\<lambda>c. (r, c)) [0..<9]"

definition colUnit :: "nat \<Rightarrow> (nat \<times> nat) list" where
  "colUnit c = map (\<lambda>r. (r, c)) [0..<9]"

definition boxUnit :: "nat \<Rightarrow> (nat \<times> nat) list" where
  "boxUnit b = map (\<lambda>i. ((b div 3) * 3 + i div 3, (b mod 3) * 3 + i mod 3)) [0..<9]"

definition units :: "(nat \<times> nat) list list" where
  "units = map rowUnit [0..<9] @ map colUnit [0..<9] @ map boxUnit [0..<9]"

text \<open>Every unit contains each value 1..9 exactly once.\<close>

definition eachOnce :: "board \<Rightarrow> bool" where
  "eachOnce board =
     list_all (\<lambda>u. list_all (\<lambda>v. count_list (map (cellAt board) u) (Some v) = 1)
                  [1, 2, 3, 4, 5, 6, 7, 8, 9]) units"

text \<open>
  \<open>g\<close> is a solution of \<open>board\<close>: a full 9x9 grid of values 1..9 without
  conflicts that keeps every filled cell of \<open>board\<close>.
\<close>

definition keepsCells :: "board \<Rightarrow> board \<Rightarrow> bool" where
  "keepsCells board g =
     list_all (\<lambda>q. cellAt board q = None \<or> cellAt g q = cellAt board q) positions"

definition solutionOf :: "board \<Rightarrow> board \<Rightarrow> bool" where
  "solutionOf board g =
     (grid9 g \<and> cellsInRange g \<and> isFull g \<and> conflictFree g \<and> keepsCells board g)"

text \<open>The board of nine 1s in every row: full, and every unit in conflict.\<close>

definition allOnes :: board where
  "allOnes = replicate 9 (replicate 9 (Some 1))"

text \<open>The random source whose every draw is 0.\<close>

definition zeroRnd :: rnd where
  "zeroRnd = (\<lambda>k. 0)"

text \<open>
  \<open>solvedExample\<close> with its last two cells emptied, and a grid without
  duplicates that has no solution: row 0 holds 1..8, and the 9 its last cell
  needs is already in column 8.
\<close>

definition lastTwoOpen :: board where
  "lastTwoOpen = setCell (setCell solvedExample 8 7 None) 8 8 None"

definition stuckBoard :: board where
  "stuckBoard = setCell
     ([Some 1, Some 2, Some 3, Some 4, Some 5, Some 6, Some 7, Some 8, None]
        # replicate 8 (replicate 9 None)) 5 8 (Some 9)"

text \<open>The target removal counts of the specification.\<close>

fun R :: "Difficulty \<Rightarrow> nat" where
  "R Easy = 35"
| "R Medium = 45"
| "R Hard = 55"

text \<open>
  The cell the carving loop picks in its iteration \<open>t\<close> when it starts at draw
  \<open>k\<close>, and the distinct cells picked in the first \<open>m\<close> iterations.
\<close>

definition pickAt :: "rnd \<Rightarrow> nat \<Rightarrow> nat \<Rightarrow> nat \<times> nat" where
  "pickAt rng k t = (randomBelow rng (k + 2 * t) 9, randomBelow rng (k + 2 * t + 1) 9)"

definition pickedCells :: "rnd \<Rightarrow> nat \<Rightarrow> nat \<Rightarrow> (nat \<times> nat) list" where
  "pickedCells rng k m = remdups (map (pickAt rng k) [0..<m])"

text \<open>
  The round-trip scenario's fill: every empty cell of the puzzle takes the value
  the solution holds at that position.
\<close>

definition fillFrom :: "board \<Rightarrow> board \<Rightarrow> board" where
  "fillFrom puzzle solution =
     map2 (map2 (\<lambda>p s. case p of None \<Rightarrow> s | Some v \<Rightarrow> Some v)) puzzle solution"

text \<open>A random source that walks through the cells in row-major order.\<close>

definition sweepRnd :: rnd where
  "sweepRnd = (\<lambda>k. if even k then (k div 2) div 9 else (k div 2) mod 9)"

text \<open>
  A store that holds \<open>solvedExample\<close>: its nine rows at references 0..8 and its
  outer array at reference 9.
\<close>

definition solvedHeap :: heap where
  "solvedHeap = map Cells solvedExample @ [Refs [0, 1, 2, 3, 4, 5, 6, 7, 8]]"

text \<open>A store that keeps the old objects keeps every board that was in it.\<close>

definition keepsOld :: "heap \<Rightarrow> heap \<Rightarrow> bool" where
  "keepsOld h h' = (length h \<le> length h' \<and> (\<forall>a<length h. h' ! a = h ! a))"

text \<open>
  In \<open>h\<close> the board \<open>p\<close> is the grid \<open>P\<close>, with nine row arrays \<open>rs\<close> that are
  nine different objects.
\<close>

definition puzzleAt :: "heap \<Rightarrow> ref \<Rightarrow> ref list \<Rightarrow> board \<Rightarrow> bool" where
  "puzzleAt h p rs P =
     (rowsOf h p = Some rs \<and> distinct rs \<and> length rs = 9 \<and> grid9 P \<and>
      list_all (\<lambda>i. cellsOf h (rs ! i) = Some (P ! i)) [0..<9])"

section \<open>Properties\<close>

subsection \<open>Shape and quantifier forms\<close>

lemma grid9_emptyBoard: "grid9 emptyBoard"
  by (simp add: grid9_def emptyBoard_def list_all_iff)

lemma list_ex_upt9: "list_ex P [0..<9] = (\<exists>x<9. P x)"
  by (auto simp: list_ex_iff)

lemma in_positions: "(q \<in> set positions) = (fst q < 9 \<and> snd q < 9)"
  by (cases q) (simp add: positions_def)

lemma bex_positions: "(\<exists>q\<in>set positions. P q) = (\<exists>r<9. \<exists>c<9. P (r, c))"
  by (simp add: positions_def Bex_def)

lemma ball_positions: "(\<forall>q\<in>set positions. P q) = (\<forall>r<9. \<forall>c<9. P (r, c))"
  by (simp add: positions_def Ball_def) blast

lemma occursInUnits_iff:
  "occursInUnits board row col v =
     (\<exists>r<9. \<exists>c<9. sameUnit (row, col) (r, c) \<and> board ! r ! c = Some v)"
  by (simp add: occursInUnits_def list_ex_iff bex_positions cellAt_def)

lemma occursElsewhere_iff:
  "occursElsewhere board row col v =
     (\<exists>r<9. \<exists>c<9. (r, c) \<noteq> (row, col) \<and> sameUnit (row, col) (r, c) \<and>
        board ! r ! c = Some v)"
  by (simp add: occursElsewhere_def list_ex_iff bex_positions cellAt_def)

lemma box_offsets:
  "(\<exists>i<3. P (i + q * 3)) = (\<exists>r. r div 3 = q \<and> P r)" for q :: nat
proof
  assume "\<exists>i<3. P (i + q * 3)"
  then obtain i where i: "i < 3" "P (i + q * 3)" by blast
  from i(1) have "(i + q * 3) div 3 = q" by simp
  with i(2) show "\<exists>r. r div 3 = q \<and> P r" by blast
next
  assume "\<exists>r. r div 3 = q \<and> P r"
  then obtain r where r: "r div 3 = q" "P r" by blast
  have "r mod 3 + (r div 3) * 3 = r" by simp
  with r have "r mod 3 < 3 \<and> P (r mod 3 + q * 3)" by simp
  then show "\<exists>i<3. P (i + q * 3)" by blast
qed

lemma div3_lt9: "r div 3 = row div 3 \<Longrightarrow> row < 9 \<Longrightarrow> r < 9" for r :: nat
proof -
  assume eq: "r div 3 = row div 3" and row: "row < 9"
  from row have "row div 3 < 3" by simp
  with eq have "r div 3 < 3" by simp
  then show ?thesis by simp
qed

lemma box_scan_rows:
  "row < 9 \<Longrightarrow>
     (\<exists>i<3. P (i + (row - row mod 3))) = (\<exists>r<9. r div 3 = row div 3 \<and> P r)"
  for row :: nat
proof -
  assume row: "row < 9"
  have "(\<exists>i<3. P (i + (row - row mod 3))) = (\<exists>i<3. P (i + (row div 3) * 3))"
    by (simp add: minus_mod_eq_div_mult)
  also have "\<dots> = (\<exists>r. r div 3 = row div 3 \<and> P r)" by (rule box_offsets)
  also have "\<dots> = (\<exists>r<9. r div 3 = row div 3 \<and> P r)" using div3_lt9 [OF _ row] by blast
  finally show ?thesis .
qed

lemma list_ex_upt: "list_ex P [a..<b] = (\<exists>x. a \<le> x \<and> x < b \<and> P x)"
  by (auto simp: list_ex_iff)

lemma duplicated_iff:
  "duplicated board row col =
     (board ! row ! col \<noteq> None \<and>
      (\<exists>r<9. \<exists>c<9. (r, c) \<noteq> (row, col) \<and> sameUnit (row, col) (r, c) \<and>
         board ! r ! c = board ! row ! col))"
  by (simp add: duplicated_def list_ex_iff bex_positions cellAt_def)

lemma ex_sameUnit:
  assumes "row < 9" "col < 9"
  shows "(\<exists>r<9. \<exists>c<9. sameUnit (row, col) (r, c) \<and> Q r c) =
     ((\<exists>c<9. Q row c) \<or> (\<exists>r<9. Q r col) \<or>
      (\<exists>r<9. r div 3 = row div 3 \<and> (\<exists>c<9. c div 3 = col div 3 \<and> Q r c)))"
    (is "?L = ?R")
proof
  assume ?L
  then obtain r c where rc: "r < 9" "c < 9" "sameUnit (row, col) (r, c)" "Q r c"
    by blast
  from rc(3) consider "row = r" | "col = c" | "r div 3 = row div 3 \<and> c div 3 = col div 3"
    by (auto simp: sameUnit_def)
  then show ?R
  proof cases
    case 1
    with rc show ?thesis by blast
  next
    case 2
    with rc show ?thesis by blast
  next
    case 3
    with rc show ?thesis by blast
  qed
next
  assume ?R
  then consider c where "c < 9" "Q row c" | r where "r < 9" "Q r col"
    | r c where "r < 9" "c < 9" "r div 3 = row div 3" "c div 3 = col div 3" "Q r c"
    by blast
  then show ?L
  proof cases
    case 1
    have "sameUnit (row, col) (row, c)" by (simp add: sameUnit_def)
    with 1 assms show ?thesis by blast
  next
    case 2
    have "sameUnit (row, col) (r, col)" by (simp add: sameUnit_def)
    with 2 assms show ?thesis by blast
  next
    case 3
    then have "sameUnit (row, col) (r, c)" by (simp add: sameUnit_def)
    with 3 show ?thesis by blast
  qed
qed

lemma box_range: "(q * 3 \<le> r \<and> r < q * 3 + 3) = (r div 3 = q)" for r :: nat
proof
  assume "q * 3 \<le> r \<and> r < q * 3 + 3"
  then show "r div 3 = q" by (intro div_nat_eqI) (simp_all add: mult.commute)
next
  assume q: "r div 3 = q"
  have "r div 3 * 3 + r mod 3 = r" by simp
  moreover have "r mod 3 < 3" by simp
  ultimately show "q * 3 \<le> r \<and> r < q * 3 + 3" unfolding q by linarith
qed


lemma list_ex_box: "list_ex P [q * 3..<q * 3 + 3] = (\<exists>r. r div 3 = q \<and> P r)"
  unfolding list_ex_upt using box_range [of q] by blast
subsection \<open>The scans, as statements about units\<close>

lemma isValidPlacement_scan:
  assumes "row < 9" "col < 9"
  shows "isValidPlacement board row col v =
     (\<not> (\<exists>r<9. \<exists>c<9. sameUnit (row, col) (r, c) \<and> board ! r ! c = Some v))"
proof -
  have box: "(\<exists>i<3. \<exists>j<3. board ! (i + (row - row mod 3)) ! (j + (col - col mod 3)) = Some v)
      = (\<exists>r<9. r div 3 = row div 3 \<and> (\<exists>c<9. c div 3 = col div 3 \<and> board ! r ! c = Some v))"
  proof -
    have "(\<exists>i<3. \<exists>j<3. board ! (i + (row - row mod 3)) ! (j + (col - col mod 3)) = Some v)
      = (\<exists>r<9. r div 3 = row div 3 \<and> (\<exists>j<3. board ! r ! (j + (col - col mod 3)) = Some v))"
      by (rule box_scan_rows [OF assms(1),
            of "\<lambda>r. \<exists>j<3. board ! r ! (j + (col - col mod 3)) = Some v"])
    moreover have "(\<exists>j<3. board ! r ! (j + (col - col mod 3)) = Some v)
      = (\<exists>c<9. c div 3 = col div 3 \<and> board ! r ! c = Some v)" for r
      by (rule box_scan_rows [OF assms(2), of "\<lambda>c. board ! r ! c = Some v"])
    ultimately show ?thesis by simp
  qed
  have "isValidPlacement board row col v =
     (\<not> ((\<exists>x<9. board ! row ! x = Some v) \<or> (\<exists>x<9. board ! x ! col = Some v) \<or>
         (\<exists>i<3. \<exists>j<3. board ! (i + (row - row mod 3)) ! (j + (col - col mod 3)) = Some v)))"
    unfolding isValidPlacement_def Let_def list_ex_upt by simp
  then show ?thesis
    unfolding box ex_sameUnit [OF assms, of "\<lambda>r c. board ! r ! c = Some v"] .
qed

lemma isCellInConflict_scan:
  assumes "row < 9" "col < 9"
  shows "isCellInConflict board row col = duplicated board row col"
proof (cases "board ! row ! col = None")
  case True
  then show ?thesis by (simp add: isCellInConflict_def duplicated_iff)
next
  case False
  then obtain w where w: "board ! row ! col = Some w" by auto
  define v where "v = Some w"
  define A where "A = (\<exists>c<9. c \<noteq> col \<and> board ! row ! c = v)"
  define B where "B = (\<exists>r<9. r \<noteq> row \<and> board ! r ! col = v)"
  have code: "isCellInConflict board row col =
     (A \<or> B \<or> (\<exists>r. r div 3 = row div 3 \<and>
        (\<exists>c. c div 3 = col div 3 \<and> r \<noteq> row \<and> c \<noteq> col \<and> board ! r ! c = v)))"
    unfolding isCellInConflict_def Let_def list_ex_box
    unfolding list_ex_upt A_def B_def v_def w
    by simp
  have spec: "duplicated board row col =
     (A \<or> B \<or> (\<exists>r<9. r div 3 = row div 3 \<and>
        (\<exists>c<9. c div 3 = col div 3 \<and> (r, c) \<noteq> (row, col) \<and> board ! r ! c = v)))"
  proof -
    have "duplicated board row col =
       (\<exists>r<9. \<exists>c<9. sameUnit (row, col) (r, c) \<and> ((r, c) \<noteq> (row, col) \<and> board ! r ! c = v))"
      unfolding duplicated_iff w v_def by auto
    also have "\<dots> = ((\<exists>c<9. (row, c) \<noteq> (row, col) \<and> board ! row ! c = v) \<or>
       (\<exists>r<9. (r, col) \<noteq> (row, col) \<and> board ! r ! col = v) \<or>
       (\<exists>r<9. r div 3 = row div 3 \<and>
        (\<exists>c<9. c div 3 = col div 3 \<and> (r, c) \<noteq> (row, col) \<and> board ! r ! c = v)))"
      by (rule ex_sameUnit [OF assms])
    finally show ?thesis unfolding A_def B_def by simp
  qed
  show ?thesis
  proof
    assume "isCellInConflict board row col"
    with code consider "A \<or> B"
      | r c where "r div 3 = row div 3" "c div 3 = col div 3" "r \<noteq> row" "c \<noteq> col"
          "board ! r ! c = v"
      by blast
    then show "duplicated board row col"
    proof cases
      case 1
      then show ?thesis using spec by blast
    next
      case 2
      from 2(1,2) assms have "r < 9" "c < 9" by (auto intro: div3_lt9)
      with 2 show ?thesis unfolding spec by blast
    qed
  next
    assume "duplicated board row col"
    with spec consider "A \<or> B"
      | r c where "r < 9" "c < 9" "r div 3 = row div 3" "c div 3 = col div 3"
          "(r, c) \<noteq> (row, col)" "board ! r ! c = v"
      by blast
    then show "isCellInConflict board row col"
    proof cases
      case 1
      then show ?thesis using code by blast
    next
      case 2
      show ?thesis
      proof (cases "r = row")
        case True
        with 2 have "c \<noteq> col" by simp
        with 2 True have A unfolding A_def by blast
        then show ?thesis using code by blast
      next
        case False
        show ?thesis
        proof (cases "c = col")
          case True
          with 2 \<open>r \<noteq> row\<close> have B unfolding B_def by blast
          then show ?thesis using code by blast
        next
          case False
          with 2 \<open>r \<noteq> row\<close> show ?thesis unfolding code by blast
        qed
      qed
    qed
  qed
qed

subsection \<open>Example boards are well-formed\<close>

lemma grid9_loneFive: "grid9 loneFive"
  by code_simp

lemma grid9_twoSevens: "grid9 twoSevens"
  by code_simp

lemma grid9_solvedExample: "grid9 solvedExample"
  by code_simp

subsection \<open>C1: the placement validator\<close>

text \<open>
  C1, as stated, fails: on the board whose only filled cell is a 5 at (0, 0),
  \<open>isValidPlacement\<close> with candidate 5 at (0, 0) returns false although 5 occurs
  at no other cell of the row, column or box. The three scans do not skip the
  target cell.
\<close>

theorem isValidPlacement_self_counterexample:
  "\<not> ((isValidPlacement loneFive 0 0 5 = False) = occursElsewhere loneFive 0 0 5)"
  by code_simp

text \<open>
  C1 (amended): for every 9x9 grid, every in-range cell \<open>(row, col)\<close> and every
  value \<open>v\<close>, \<open>isValidPlacement\<close> returns false if and only if \<open>v\<close> occurs at some
  other cell of the same row, column or box, or at the cell \<open>(row, col)\<close> itself.
\<close>

theorem isValidPlacement_false_iff:
  assumes "grid9 board" "row < 9" "col < 9"
  shows "(isValidPlacement board row col v = False) =
     (occursElsewhere board row col v \<or> board ! row ! col = Some v)"
proof -
  have "sameUnit (row, col) (row, col)" by (simp add: sameUnit_def)
  then have eq: "(\<exists>r<9. \<exists>c<9. sameUnit (row, col) (r, c) \<and> board ! r ! c = Some v) =
     ((\<exists>r<9. \<exists>c<9. (r, c) \<noteq> (row, col) \<and> sameUnit (row, col) (r, c) \<and>
         board ! r ! c = Some v) \<or> board ! row ! col = Some v)"
    using assms(2,3) by blast
  show ?thesis
    unfolding occursElsewhere_iff eq [symmetric]
    by (simp only: isValidPlacement_scan [OF assms(2,3)] simp_thms)
qed

theorem isValidPlacement_false_iff_witness:
  "grid9 loneFive \<and> (0::nat) < 9 \<and>
   (isValidPlacement loneFive 0 0 5 = False) =
     (occursElsewhere loneFive 0 0 5 \<or> loneFive ! 0 ! 0 = Some 5)"
  using isValidPlacement_false_iff [OF grid9_loneFive, of 0 0 5] grid9_loneFive
  by simp

subsection \<open>C9: the single-cell conflict test\<close>

text \<open>
  C9: for every 9x9 grid and every in-range \<open>(row, col)\<close>, \<open>isCellInConflict\<close>
  returns true if and only if the cell is non-empty and its value occurs at some
  other cell of the same row, column or box; on an empty cell it returns false.
  The box scan skips the box cells that share the target's row or column, and
  the row and column scans cover them.
\<close>

theorem isCellInConflict_iff:
  assumes "grid9 board" "row < 9" "col < 9"
  shows "isCellInConflict board row col =
       (board ! row ! col \<noteq> None \<and>
        (\<exists>r<9. \<exists>c<9. (r, c) \<noteq> (row, col) \<and> sameUnit (row, col) (r, c) \<and>
           board ! r ! c = board ! row ! col)) \<and>
     (board ! row ! col = None \<longrightarrow> \<not> isCellInConflict board row col)"
  unfolding isCellInConflict_scan [OF assms(2,3)] duplicated_iff by simp

theorem isCellInConflict_iff_witness:
  "grid9 twoSevens \<and> isCellInConflict twoSevens 0 3 \<and>
   (\<exists>r<9. \<exists>c<9. (r, c) \<noteq> (0, 3) \<and> sameUnit (0, 3) (r, c) \<and>
      twoSevens ! r ! c = twoSevens ! 0 ! 3) \<and>
   twoSevens ! 1 ! 1 = None \<and> \<not> isCellInConflict twoSevens 1 1"
proof -
  have c: "isCellInConflict twoSevens 0 3" by code_simp
  have e: "twoSevens ! 1 ! 1 = None" by code_simp
  from isCellInConflict_iff [OF grid9_twoSevens, of 0 3] c
  have "\<exists>r<9. \<exists>c<9. (r, c) \<noteq> (0, 3) \<and> sameUnit (0, 3) (r, c) \<and>
      twoSevens ! r ! c = twoSevens ! 0 ! 3" by simp
  moreover from isCellInConflict_iff [OF grid9_twoSevens, of 1 1] e
  have "\<not> isCellInConflict twoSevens 1 1" by simp
  ultimately show ?thesis using grid9_twoSevens c e by blast
qed

subsection \<open>C4: the solved-state checker\<close>

lemma checkSolution_scan:
  "checkSolution board = (\<forall>r<9. \<forall>c<9. board ! r ! c \<noteq> None \<and> \<not> isCellInConflict board r c)"
  unfolding checkSolution_def list_ex_upt by auto

text \<open>
  C4: for every 9x9 grid, \<open>checkSolution\<close> returns true if and only if every cell
  is non-empty and no cell's value occurs at another cell of its row, column or
  box; a grid with an empty cell is rejected whatever else it holds.
\<close>

theorem checkSolution_iff:
  assumes "grid9 board"
  shows "checkSolution board =
       (\<forall>r<9. \<forall>c<9. board ! r ! c \<noteq> None \<and>
          \<not> (\<exists>r'<9. \<exists>c'<9. (r', c') \<noteq> (r, c) \<and> sameUnit (r, c) (r', c') \<and>
                board ! r' ! c' = board ! r ! c)) \<and>
     ((\<exists>r<9. \<exists>c<9. board ! r ! c = None) \<longrightarrow> \<not> checkSolution board)"
proof -
  have "checkSolution board =
       (\<forall>r<9. \<forall>c<9. board ! r ! c \<noteq> None \<and> \<not> duplicated board r c)"
    unfolding checkSolution_scan using isCellInConflict_scan by blast
  then have 1: "checkSolution board =
       (\<forall>r<9. \<forall>c<9. board ! r ! c \<noteq> None \<and>
          \<not> (\<exists>r'<9. \<exists>c'<9. (r', c') \<noteq> (r, c) \<and> sameUnit (r, c) (r', c') \<and>
                board ! r' ! c' = board ! r ! c))"
    unfolding duplicated_iff by blast
  have 2: "(\<exists>r<9. \<exists>c<9. board ! r ! c = None) \<longrightarrow> \<not> checkSolution board"
    unfolding checkSolution_scan by blast
  from 1 2 show ?thesis by (rule conjI)
qed

theorem checkSolution_iff_witness:
  "grid9 solvedExample \<and> checkSolution solvedExample \<and>
   solvedExample ! 4 ! 4 \<noteq> None \<and>
   \<not> (\<exists>r'<9. \<exists>c'<9. (r', c') \<noteq> (4, 4) \<and> sameUnit (4, 4) (r', c') \<and>
         solvedExample ! r' ! c' = solvedExample ! 4 ! 4) \<and>
   grid9 twoSevens \<and> twoSevens ! 1 ! 1 = None \<and> \<not> checkSolution twoSevens"
proof -
  have c: "checkSolution solvedExample" by code_simp
  have e: "twoSevens ! 1 ! 1 = None" by code_simp
  have n: "(4::nat) < 9" "(1::nat) < 9" by simp_all
  from checkSolution_iff [OF grid9_solvedExample] c n(1)
  have "solvedExample ! 4 ! 4 \<noteq> None \<and>
   \<not> (\<exists>r'<9. \<exists>c'<9. (r', c') \<noteq> (4, 4) \<and> sameUnit (4, 4) (r', c') \<and>
         solvedExample ! r' ! c' = solvedExample ! 4 ! 4)" by blast
  moreover from checkSolution_iff [OF grid9_twoSevens] e n(2)
  have "\<not> checkSolution twoSevens" by blast
  ultimately show ?thesis using grid9_solvedExample grid9_twoSevens c e by blast
qed

subsection \<open>The conflict scanner\<close>

lemma showNat_digit: "n < 10 \<Longrightarrow> showNat n = [digitChar n]"
  by (simp add: showNat.simps)

lemma digitChar_inj: "a < 10 \<Longrightarrow> b < 10 \<Longrightarrow> digitChar a = digitChar b \<Longrightarrow> a = b"
proof -
  assume a: "a < 10" and b: "b < 10" and eq: "digitChar a = digitChar b"
  have d: "distinct ''0123456789''" by simp
  have l: "length ''0123456789'' = 10" by simp
  from eq show "a = b"
    unfolding digitChar_def using nth_eq_iff_index_eq [OF d, of a b] a b l by simp
qed

lemma key_inj:
  assumes "r < 9" "c < 9" "r' < 9" "c' < 9" "key r c = key r' c'"
  shows "r = r' \<and> c = c'"
proof -
  from assms(1-4) have lt: "r < 10" "c < 10" "r' < 10" "c' < 10" by simp_all
  from assms(5) have "digitChar r = digitChar r' \<and> digitChar c = digitChar c'"
    by (simp add: key_def showNat_digit lt)
  with lt show ?thesis by (blast dest: digitChar_inj)
qed

lemma fold_insert_member:
  "(k \<in> fold (\<lambda>x S. insert (f x) S) xs S) = (k \<in> S \<or> (\<exists>x\<in>set xs. k = f x))"
  by (induction xs arbitrary: S) auto

lemma fold_member:
  assumes "\<And>x S. x \<in> set xs \<Longrightarrow> (k \<in> step x S) = (k \<in> S \<or> C x)"
  shows "(k \<in> fold step xs S) = (k \<in> S \<or> (\<exists>x\<in>set xs. C x))"
  using assms by (induction xs arbitrary: S) auto

lemma length_gt1_distinct:
  assumes "distinct xs"
  shows "(1 < length xs) = (\<exists>a\<in>set xs. \<exists>b\<in>set xs. a \<noteq> b)"
proof
  assume "1 < length xs"
  then obtain a b ys where "xs = a # b # ys"
    by (cases xs; cases "tl xs") auto
  with assms show "\<exists>a\<in>set xs. \<exists>b\<in>set xs. a \<noteq> b" by auto
next
  assume "\<exists>a\<in>set xs. \<exists>b\<in>set xs. a \<noteq> b"
  then show "1 < length xs"
    by (cases xs; cases "tl xs") auto
qed

lemma enumerate_indices:
  "filter (\<lambda>c. c \<noteq> - 1) (map (\<lambda>(c, val). if P val then int c else - 1) (enumerate 0 xs))
     = map int (filter (\<lambda>c. P (xs ! c)) [0..<length xs])"
proof (induction xs rule: rev_induct)
  case Nil
  show ?case by simp
next
  case (snoc x xs)
  have "filter (\<lambda>c. P ((xs @ [x]) ! c)) [0..<length xs] = filter (\<lambda>c. P (xs ! c)) [0..<length xs]"
    by (rule filter_cong) (simp_all add: nth_append)
  with snoc show ?case by (simp add: enumerate_append_eq)
qed

lemma rowIndices_eq:
  "grid9 board \<Longrightarrow> r < 9 \<Longrightarrow>
     rowIndices board r num = map int (filter (\<lambda>c. board ! r ! c = Some num) [0..<9])"
  unfolding rowIndices_def enumerate_indices [of "\<lambda>val. val = Some num"]
  by (simp add: grid9_def list_all_iff)

lemma colIndices_eq:
  "grid9 board \<Longrightarrow>
     colIndices board c num = map int (filter (\<lambda>r. board ! r ! c = Some num) [0..<9])"
proof -
  assume g: "grid9 board"
  have "colIndices board c num =
      filter (\<lambda>r. r \<noteq> - 1)
       (map (\<lambda>(r, row). if (\<lambda>row. row ! c = Some num) row then int r else - 1) (enumerate 0 board))"
    by (simp add: colIndices_def)
  also have "\<dots> = map int (filter (\<lambda>r. board ! r ! c = Some num) [0..<length board])"
    by (rule enumerate_indices)
  finally show ?thesis using g by (simp add: grid9_def)
qed

lemma step_member:
  assumes "distinct idx"
  shows "(k \<in> (if 1 < length idx then fold (\<lambda>x S. insert (f x) S) idx S else S)) =
     (k \<in> S \<or> (\<exists>x\<in>set idx. k = f x \<and> (\<exists>y\<in>set idx. y \<noteq> x)))"
proof (cases "1 < length idx")
  case True
  with length_gt1_distinct [OF assms] obtain a b where ab: "a \<in> set idx" "b \<in> set idx" "a \<noteq> b"
    by blast
  have "\<exists>y\<in>set idx. y \<noteq> x" for x using ab by (cases "x = a") auto
  with True show ?thesis by (simp add: fold_insert_member)
next
  case False
  with length_gt1_distinct [OF assms] have "\<not> (\<exists>x\<in>set idx. \<exists>y\<in>set idx. y \<noteq> x)" by blast
  with False show ?thesis by auto
qed

lemma line_step_member:
  "(k \<in> (let indices = map int (filter P [0..<9])
          in if length indices > 1
             then fold (\<lambda>x conflicts. insert (f (nat x)) conflicts) indices S
             else S)) =
   (k \<in> S \<or> (\<exists>c<9. k = f c \<and> P c \<and> (\<exists>c'<9. c' \<noteq> c \<and> P c')))"
proof -
  define idx where "idx = map int (filter P [0..<9])"
  have d: "distinct idx" by (simp add: idx_def distinct_map)
  have m: "(x \<in> set idx) = (\<exists>c<9. x = int c \<and> P c)" for x
    by (auto simp: idx_def)
  have ex: "(\<exists>x\<in>set idx. k = f (nat x) \<and> (\<exists>y\<in>set idx. y \<noteq> x)) =
     (\<exists>c<9. k = f c \<and> P c \<and> (\<exists>c'<9. c' \<noteq> c \<and> P c'))" (is "?L = ?R")
  proof
    assume ?L
    then obtain x y where xy: "x \<in> set idx" "k = f (nat x)" "y \<in> set idx" "y \<noteq> x"
      by blast
    from xy(1,3) m obtain c c' where
      "c < 9" "x = int c" "P c" "c' < 9" "y = int c'" "P c'" by blast
    with xy(2,4) show ?R by auto
  next
    assume ?R
    then obtain c c' where cc: "c < 9" "k = f c" "P c" "c' < 9" "c' \<noteq> c" "P c'" by auto
    then have "int c \<in> set idx" "int c' \<in> set idx" "int c' \<noteq> int c" "k = f (nat (int c))"
      using m by auto
    then show ?L by blast
  qed
  show ?thesis
    unfolding idx_def [symmetric] Let_def step_member [OF d, of k "\<lambda>c. f (nat c)"] ex ..
qed

lemma addRows_member:
  assumes "grid9 board"
  shows "(k \<in> addRows board num S) =
     (k \<in> S \<or> (\<exists>r<9. \<exists>c<9. k = key r c \<and> board ! r ! c = Some num \<and>
        (\<exists>c'<9. c' \<noteq> c \<and> board ! r ! c' = Some num)))"
proof -
  have step: "(k \<in> (let indices = rowIndices board r num
        in if length indices > 1
           then fold (\<lambda>c conflicts. insert (key r (nat c)) conflicts) indices S
           else S)) =
     (k \<in> S \<or> (\<exists>c<9. k = key r c \<and> board ! r ! c = Some num \<and>
        (\<exists>c'<9. c' \<noteq> c \<and> board ! r ! c' = Some num)))"
    if "r \<in> set [0..<9]" for r S
  proof -
    from that have r: "r < 9" by simp
    show ?thesis unfolding rowIndices_eq [OF assms r] by (rule line_step_member)
  qed
  have "(k \<in> addRows board num S) =
     (k \<in> S \<or> (\<exists>r\<in>set [0..<9]. \<exists>c<9. k = key r c \<and> board ! r ! c = Some num \<and>
        (\<exists>c'<9. c' \<noteq> c \<and> board ! r ! c' = Some num)))"
    unfolding addRows_def by (rule fold_member) (rule step)
  then show ?thesis by (simp add: Bex_def)
qed

lemma addCols_member:
  assumes "grid9 board"
  shows "(k \<in> addCols board num S) =
     (k \<in> S \<or> (\<exists>c<9. \<exists>r<9. k = key r c \<and> board ! r ! c = Some num \<and>
        (\<exists>r'<9. r' \<noteq> r \<and> board ! r' ! c = Some num)))"
proof -
  have step: "(k \<in> (let indices = colIndices board c num
        in if length indices > 1
           then fold (\<lambda>r conflicts. insert (key (nat r) c) conflicts) indices S
           else S)) =
     (k \<in> S \<or> (\<exists>r<9. k = key r c \<and> board ! r ! c = Some num \<and>
        (\<exists>r'<9. r' \<noteq> r \<and> board ! r' ! c = Some num)))"
    if "c \<in> set [0..<9]" for c S
    unfolding colIndices_eq [OF assms]
    by (rule line_step_member [of k "\<lambda>r. board ! r ! c = Some num" "\<lambda>r. key r c"])
  have "(k \<in> addCols board num S) =
     (k \<in> S \<or> (\<exists>c\<in>set [0..<9]. \<exists>r<9. k = key r c \<and> board ! r ! c = Some num \<and>
        (\<exists>r'<9. r' \<noteq> r \<and> board ! r' ! c = Some num)))"
    unfolding addCols_def by (rule fold_member) (rule step)
  then show ?thesis by (simp add: Bex_def)
qed

lemma boxIndices_distinct: "distinct (boxIndices board br bc num)"
  unfolding boxIndices_def
  by (intro distinct_filter) (auto simp: distinct_map distinct_product inj_on_def)

lemma boxIndices_member:
  "((r, c) \<in> set (boxIndices board br bc num)) =
     (r div 3 = br \<and> c div 3 = bc \<and> board ! r ! c = Some num)"
proof -
  have "((r, c) \<in> set (map (\<lambda>(r_off, c_off). (br * 3 + r_off, bc * 3 + c_off))
          (List.product [0..<3] [0..<3]))) =
     ((\<exists>i<3. r = i + br * 3) \<and> (\<exists>j<3. c = j + bc * 3))"
    by (auto simp: image_iff)
  also have "\<dots> = (r div 3 = br \<and> c div 3 = bc)"
    unfolding box_offsets [of "\<lambda>x. r = x"] box_offsets [of "\<lambda>x. c = x"] by auto
  finally show ?thesis by (simp add: boxIndices_def)
qed

lemma addBoxes_member:
  "(k \<in> addBoxes board num S) =
     (k \<in> S \<or> (\<exists>br<3. \<exists>bc<3. \<exists>r c. r div 3 = br \<and> c div 3 = bc \<and>
        k = key r c \<and> board ! r ! c = Some num \<and>
        (\<exists>r' c'. r' div 3 = br \<and> c' div 3 = bc \<and> (r', c') \<noteq> (r, c) \<and>
           board ! r' ! c' = Some num)))"
proof -
  let ?C = "\<lambda>br bc. \<exists>r c. r div 3 = br \<and> c div 3 = bc \<and>
        k = key r c \<and> board ! r ! c = Some num \<and>
        (\<exists>r' c'. r' div 3 = br \<and> c' div 3 = bc \<and> (r', c') \<noteq> (r, c) \<and>
           board ! r' ! c' = Some num)"
  have inner: "(k \<in> (let indices = boxIndices board br bc num
        in if length indices > 1
           then fold (\<lambda>(r, c) conflicts. insert (key r c) conflicts) indices S
           else S)) = (k \<in> S \<or> ?C br bc)" for br bc S
  proof -
    have ex: "(\<exists>x\<in>set (boxIndices board br bc num). k = (\<lambda>(r, c). key r c) x \<and>
         (\<exists>y\<in>set (boxIndices board br bc num). y \<noteq> x)) = ?C br bc"
      by (simp add: Bex_def boxIndices_member) blast
    have f: "(\<lambda>(r, c) conflicts. insert (key r c) conflicts) =
         (\<lambda>x conflicts. insert ((\<lambda>(r, c). key r c) x) conflicts)"
      by (auto simp: fun_eq_iff)
    show ?thesis
      unfolding Let_def f
      unfolding step_member [where f = "\<lambda>(r, c). key r c", OF boxIndices_distinct] ex ..
  qed
  have mid: "(k \<in> fold (\<lambda>bc conflicts.
        let indices = boxIndices board br bc num
        in if length indices > 1
           then fold (\<lambda>(r, c) conflicts. insert (key r c) conflicts) indices conflicts
           else conflicts) [0..<3] S) = (k \<in> S \<or> (\<exists>bc\<in>set [0..<3]. ?C br bc))" for br S
    by (rule fold_member) (rule inner)
  have "(k \<in> addBoxes board num S) =
      (k \<in> S \<or> (\<exists>br\<in>set [0..<3]. \<exists>bc\<in>set [0..<3]. ?C br bc))"
    unfolding addBoxes_def by (rule fold_member) (rule mid)
  then show ?thesis by (simp add: Bex_def)
qed

lemma div3_lt3: "(r div 3 < 3) = (r < 9)" for r :: nat
  by auto

lemma perNum_member:
  assumes "grid9 board"
  shows "(k \<in> addBoxes board num (addCols board num (addRows board num S))) =
     (k \<in> S \<or> (\<exists>r<9. \<exists>c<9. k = key r c \<and> board ! r ! c = Some num \<and>
        (\<exists>r'<9. \<exists>c'<9. (r', c') \<noteq> (r, c) \<and> sameUnit (r, c) (r', c') \<and>
           board ! r' ! c' = Some num)))"
    (is "?L = (k \<in> S \<or> ?D)")
proof -
  let ?rows = "\<exists>r<9. \<exists>c<9. k = key r c \<and> board ! r ! c = Some num \<and>
        (\<exists>c'<9. c' \<noteq> c \<and> board ! r ! c' = Some num)"
  let ?cols = "\<exists>c<9. \<exists>r<9. k = key r c \<and> board ! r ! c = Some num \<and>
        (\<exists>r'<9. r' \<noteq> r \<and> board ! r' ! c = Some num)"
  let ?boxes = "\<exists>br<3. \<exists>bc<3. \<exists>r c. r div 3 = br \<and> c div 3 = bc \<and>
        k = key r c \<and> board ! r ! c = Some num \<and>
        (\<exists>r' c'. r' div 3 = br \<and> c' div 3 = bc \<and> (r', c') \<noteq> (r, c) \<and>
           board ! r' ! c' = Some num)"
  have L: "?L = (k \<in> S \<or> ?rows \<or> ?cols \<or> ?boxes)"
    unfolding addBoxes_member addCols_member [OF assms] addRows_member [OF assms]
    by (simp only: disj_assoc)
  have "(?rows \<or> ?cols \<or> ?boxes) = ?D"
  proof
    assume "?rows \<or> ?cols \<or> ?boxes"
    then consider ?rows | ?cols | ?boxes by blast
    then show ?D
    proof cases
      case 1
      then obtain r c c' where h: "r < 9" "c < 9" "k = key r c" "board ! r ! c = Some num"
        "c' < 9" "c' \<noteq> c" "board ! r ! c' = Some num" by blast
      have "sameUnit (r, c) (r, c')" "(r, c') \<noteq> (r, c)" using h by (simp_all add: sameUnit_def)
      with h show ?thesis by blast
    next
      case 2
      then obtain r c r' where h: "r < 9" "c < 9" "k = key r c" "board ! r ! c = Some num"
        "r' < 9" "r' \<noteq> r" "board ! r' ! c = Some num" by blast
      have "sameUnit (r, c) (r', c)" "(r', c) \<noteq> (r, c)" using h by (simp_all add: sameUnit_def)
      with h show ?thesis by blast
    next
      case 3
      then obtain r c r' c' where h: "r div 3 < 3" "c div 3 < 3"
        "k = key r c" "board ! r ! c = Some num"
        "r' div 3 = r div 3" "c' div 3 = c div 3" "(r', c') \<noteq> (r, c)"
        "board ! r' ! c' = Some num" by blast
      from h(1,2) have lt0: "r < 9" "c < 9" using div3_lt3 by blast+
      with h(5,6) have lt1: "r' < 9" "c' < 9" by (blast intro: div3_lt9)+
      note lt = lt0 lt1
      have "sameUnit (r, c) (r', c')" using h by (simp add: sameUnit_def)
      with h lt show ?thesis by blast
    qed
  next
    assume ?D
    then obtain r c r' c' where h: "r < 9" "c < 9" "k = key r c" "board ! r ! c = Some num"
      "r' < 9" "c' < 9" "(r', c') \<noteq> (r, c)" "sameUnit (r, c) (r', c')"
      "board ! r' ! c' = Some num" by blast
    from h(8) have "r = r' \<or> c = c' \<or> (r div 3 = r' div 3 \<and> c div 3 = c' div 3)"
      unfolding sameUnit_def fst_conv snd_conv .
    then consider "r' = r" | "c' = c" | "r' div 3 = r div 3 \<and> c' div 3 = c div 3"
      by metis
    then show "?rows \<or> ?cols \<or> ?boxes"
    proof cases
      case 1
      with h have "c' \<noteq> c" "board ! r ! c' = Some num" by simp_all
      with h have ?rows by blast
      then show ?thesis ..
    next
      case 2
      with h have "r' \<noteq> r" "board ! r' ! c = Some num" by simp_all
      with h have ?cols by blast
      then show ?thesis by blast
    next
      case 3
      from h(1,2) have "r div 3 < 3" "c div 3 < 3" using div3_lt3 by blast+
      with 3 h have ?boxes by blast
      then show ?thesis by blast
    qed
  qed
  with L show ?thesis by simp
qed

lemma findAllConflicts_member:
  assumes "grid9 board"
  shows "(k \<in> findAllConflicts board) =
     (\<exists>num\<in>{1..9}. \<exists>r<9. \<exists>c<9. k = key r c \<and> board ! r ! c = Some num \<and>
        (\<exists>r'<9. \<exists>c'<9. (r', c') \<noteq> (r, c) \<and> sameUnit (r, c) (r', c') \<and>
           board ! r' ! c' = Some num))"
proof -
  have s: "set [1, 2, 3, 4, 5, 6, 7, 8, 9] = {1..9::int}"
  proof -
    have "{1..9::int} = set [1..9]" by simp
    also have "[1..9] = [1, 2, 3, 4, 5, 6, 7, 8, 9::int]" by code_simp
    finally show ?thesis by simp
  qed
  have "(k \<in> findAllConflicts board) =
     (k \<in> {} \<or> (\<exists>num\<in>set [1, 2, 3, 4, 5, 6, 7, 8, 9]. \<exists>r<9. \<exists>c<9. k = key r c \<and>
        board ! r ! c = Some num \<and>
        (\<exists>r'<9. \<exists>c'<9. (r', c') \<noteq> (r, c) \<and> sameUnit (r, c) (r', c') \<and>
           board ! r' ! c' = Some num)))"
    unfolding findAllConflicts_def by (rule fold_member) (rule perNum_member [OF assms])
  then show ?thesis unfolding s by simp
qed

subsection \<open>C6 and C10: the conflict set\<close>

lemma cellsInRange_nth:
  assumes "grid9 board" "cellsInRange board" "r < 9" "c < 9" "board ! r ! c = Some v"
  shows "v \<in> {1..9}"
proof -
  from assms(1,3) have "board ! r \<in> set board" "length (board ! r) = 9"
    by (simp_all add: grid9_def list_all_iff)
  with assms(4) have "board ! r ! c \<in> set (board ! r)" by simp
  with assms(2) \<open>board ! r \<in> set board\<close>
  have "board ! r ! c = None \<or> board ! r ! c \<in> Some ` {1..9}"
    unfolding cellsInRange_def list_all_iff by blast
  with assms(5) show ?thesis by auto
qed

lemma findAllConflicts_key:
  assumes "grid9 board" "cellsInRange board" "r < 9" "c < 9"
  shows "(key r c \<in> findAllConflicts board) = duplicated board r c"
proof
  assume "key r c \<in> findAllConflicts board"
  then obtain num r0 c0 r' c' where h: "r0 < 9" "c0 < 9" "key r c = key r0 c0"
    "board ! r0 ! c0 = Some num" "r' < 9" "c' < 9" "(r', c') \<noteq> (r0, c0)"
    "sameUnit (r0, c0) (r', c')" "board ! r' ! c' = Some num"
    unfolding findAllConflicts_member [OF assms(1)] by blast
  from key_inj [OF assms(3,4) h(1,2,3)] have e: "r0 = r" "c0 = c" by simp_all
  from h(4,5,6,7,8,9) show "duplicated board r c"
    unfolding duplicated_iff e by auto
next
  assume "duplicated board r c"
  then obtain num r' c' where h: "board ! r ! c = Some num" "r' < 9" "c' < 9"
    "(r', c') \<noteq> (r, c)" "sameUnit (r, c) (r', c')" "board ! r' ! c' = Some num"
    unfolding duplicated_iff by auto
  from cellsInRange_nth [OF assms h(1)] have "num \<in> {1..9}" .
  with h assms(3,4) show "key r c \<in> findAllConflicts board"
    unfolding findAllConflicts_member [OF assms(1)] by blast
qed

lemma findAllConflicts_keys_only:
  assumes "grid9 board" "k \<in> findAllConflicts board"
  shows "\<exists>r<9. \<exists>c<9. k = key r c"
  using assms(2) unfolding findAllConflicts_member [OF assms(1)] by blast

text \<open>
  C6: for every 9x9 grid with cell values in 1..9, \<open>findAllConflicts\<close> returns
  exactly the keys of the positions whose value occurs at another cell of one of
  their units. On a grid with no duplicate in any unit the result is empty, and
  two cells of one unit holding the same value are both in the result.
  (Quantifier form of \<open>duplicated\<close>: \<open>duplicated_iff\<close>; the keys of distinct
  positions are distinct: \<open>key_inj\<close>.)
\<close>

theorem findAllConflicts_exact:
  assumes "grid9 board" "cellsInRange board"
  shows "findAllConflicts board = {k. \<exists>r<9. \<exists>c<9. k = key r c \<and> duplicated board r c} \<and>
     ((\<forall>r<9. \<forall>c<9. \<not> duplicated board r c) \<longrightarrow> findAllConflicts board = {}) \<and>
     (\<forall>r<9. \<forall>c<9. \<forall>r'<9. \<forall>c'<9.
        (r', c') \<noteq> (r, c) \<and> sameUnit (r, c) (r', c') \<and>
        board ! r ! c \<noteq> None \<and> board ! r' ! c' = board ! r ! c \<longrightarrow>
        key r c \<in> findAllConflicts board \<and> key r' c' \<in> findAllConflicts board)"
proof -
  have 1: "findAllConflicts board = {k. \<exists>r<9. \<exists>c<9. k = key r c \<and> duplicated board r c}"
  proof (rule set_eqI)
    fix k
    show "(k \<in> findAllConflicts board) =
      (k \<in> {k. \<exists>r<9. \<exists>c<9. k = key r c \<and> duplicated board r c})"
    proof
      assume k: "k \<in> findAllConflicts board"
      from findAllConflicts_keys_only [OF assms(1) k] obtain r c where
        rc: "r < 9" "c < 9" "k = key r c" by blast
      with k findAllConflicts_key [OF assms rc(1,2)] have "duplicated board r c" by simp
      with rc show "k \<in> {k. \<exists>r<9. \<exists>c<9. k = key r c \<and> duplicated board r c}" by blast
    next
      assume "k \<in> {k. \<exists>r<9. \<exists>c<9. k = key r c \<and> duplicated board r c}"
      then obtain r c where rc: "r < 9" "c < 9" "k = key r c" "duplicated board r c" by blast
      with findAllConflicts_key [OF assms rc(1,2)] show "k \<in> findAllConflicts board" by simp
    qed
  qed
  have 2: "(\<forall>r<9. \<forall>c<9. \<not> duplicated board r c) \<longrightarrow> findAllConflicts board = {}"
    unfolding 1 by blast
  have 3: "key r c \<in> findAllConflicts board \<and> key r' c' \<in> findAllConflicts board"
    if h: "r < 9" "c < 9" "r' < 9" "c' < 9" "(r', c') \<noteq> (r, c)" "sameUnit (r, c) (r', c')"
      "board ! r ! c \<noteq> None" "board ! r' ! c' = board ! r ! c" for r c r' c'
  proof -
    from h have "duplicated board r c" unfolding duplicated_iff by blast
    moreover from h(6) have "sameUnit (r', c') (r, c)"
      unfolding sameUnit_def fst_conv snd_conv by metis
    with h have "duplicated board r' c'" unfolding duplicated_iff by metis
    ultimately show ?thesis using findAllConflicts_key [OF assms] h(1-4) by blast
  qed
  have 4: "\<forall>r<9. \<forall>c<9. \<forall>r'<9. \<forall>c'<9.
        (r', c') \<noteq> (r, c) \<and> sameUnit (r, c) (r', c') \<and>
        board ! r ! c \<noteq> None \<and> board ! r' ! c' = board ! r ! c \<longrightarrow>
        key r c \<in> findAllConflicts board \<and> key r' c' \<in> findAllConflicts board"
    using 3 by blast
  show ?thesis by (rule conjI [OF 1 conjI [OF 2 4]])
qed

lemma emptyBoard_nth: "r < 9 \<Longrightarrow> c < 9 \<Longrightarrow> emptyBoard ! r ! c = None"
  by (simp add: emptyBoard_def)

lemma cellsInRange_emptyBoard: "cellsInRange emptyBoard"
  by (simp add: cellsInRange_def emptyBoard_def list_all_iff)

lemma cellsInRange_twoSevens: "cellsInRange twoSevens"
  by code_simp

theorem findAllConflicts_exact_witness:
  "grid9 twoSevens \<and> cellsInRange twoSevens \<and>
   key 0 0 \<in> findAllConflicts twoSevens \<and> key 0 3 \<in> findAllConflicts twoSevens \<and>
   grid9 emptyBoard \<and> cellsInRange emptyBoard \<and> findAllConflicts emptyBoard = {}"
proof -
  have n: "(0::nat) < 9" "(3::nat) < 9" by simp_all
  have p: "(0, 3) \<noteq> (0::nat, 0::nat)" "sameUnit (0, 0) (0, 3)"
    "twoSevens ! 0 ! 0 \<noteq> None" "twoSevens ! 0 ! 3 = twoSevens ! 0 ! 0"
    by code_simp+
  from findAllConflicts_exact [OF grid9_twoSevens cellsInRange_twoSevens] n p
  have a: "key 0 0 \<in> findAllConflicts twoSevens \<and> key 0 3 \<in> findAllConflicts twoSevens"
    by blast
  have "\<forall>r<9. \<forall>c<9. \<not> duplicated emptyBoard r c"
    by (simp add: duplicated_iff emptyBoard_nth)
  with findAllConflicts_exact [OF grid9_emptyBoard cellsInRange_emptyBoard]
  have b: "findAllConflicts emptyBoard = {}" by blast
  from a b grid9_twoSevens cellsInRange_twoSevens grid9_emptyBoard cellsInRange_emptyBoard
  show ?thesis by blast
qed

text \<open>
  C10: for every 9x9 grid with cell values in 1..9 and every in-range position
  \<open>(r, c)\<close>, the key \<open>r-c\<close> is in \<open>findAllConflicts\<close> of the grid if and only if
  \<open>isCellInConflict\<close> is true at \<open>(r, c)\<close>.
\<close>

theorem findAllConflicts_isCellInConflict:
  assumes "grid9 board" "cellsInRange board" "r < 9" "c < 9"
  shows "(key r c \<in> findAllConflicts board) = isCellInConflict board r c"
  unfolding isCellInConflict_scan [OF assms(3,4)] by (rule findAllConflicts_key [OF assms])

theorem findAllConflicts_isCellInConflict_witness:
  "grid9 twoSevens \<and> cellsInRange twoSevens \<and> (3::nat) < 9 \<and>
   isCellInConflict twoSevens 0 3 \<and> key 0 3 \<in> findAllConflicts twoSevens \<and>
   \<not> isCellInConflict twoSevens 1 1 \<and> key 1 1 \<notin> findAllConflicts twoSevens"
proof -
  have c: "isCellInConflict twoSevens 0 3" "\<not> isCellInConflict twoSevens 1 1" by code_simp+
  have n: "(0::nat) < 9" "(1::nat) < 9" "(3::nat) < 9" by simp_all
  from c findAllConflicts_isCellInConflict [OF grid9_twoSevens cellsInRange_twoSevens n(1,3)]
    findAllConflicts_isCellInConflict [OF grid9_twoSevens cellsInRange_twoSevens n(2,2)]
  have "key 0 3 \<in> findAllConflicts twoSevens" "key 1 1 \<notin> findAllConflicts twoSevens"
    by simp_all
  with c n grid9_twoSevens cellsInRange_twoSevens show ?thesis by blast
qed

subsection \<open>Quantifier forms of the vocabulary\<close>

lemma isFull_iff: "isFull board = (\<forall>r<9. \<forall>c<9. board ! r ! c \<noteq> None)"
  by (simp add: isFull_def list_all_iff ball_positions cellAt_def)

lemma conflictFree_iff: "conflictFree board = (\<forall>r<9. \<forall>c<9. \<not> duplicated board r c)"
  by (simp add: conflictFree_def list_all_iff ball_positions)

lemma keepsCells_iff:
  "keepsCells board g = (\<forall>r<9. \<forall>c<9. board ! r ! c \<noteq> None \<longrightarrow> g ! r ! c = board ! r ! c)"
  by (simp add: keepsCells_def list_all_iff ball_positions cellAt_def disj_imp)

lemma cellsInRange_iff:
  assumes "grid9 board"
  shows "cellsInRange board = (\<forall>r<9. \<forall>c<9. \<forall>v. board ! r ! c = Some v \<longrightarrow> v \<in> {1..9})"
proof
  assume "cellsInRange board"
  with assms show "\<forall>r<9. \<forall>c<9. \<forall>v. board ! r ! c = Some v \<longrightarrow> v \<in> {1..9}"
    using cellsInRange_nth by blast
next
  assume h: "\<forall>r<9. \<forall>c<9. \<forall>v. board ! r ! c = Some v \<longrightarrow> v \<in> {1..9}"
  show "cellsInRange board"
    unfolding cellsInRange_def list_all_iff
  proof (intro ballI)
    fix row x assume row: "row \<in> set board" and x: "x \<in> set row"
    from row obtain r where r: "r < length board" "row = board ! r" by (auto simp: in_set_conv_nth)
    from x obtain c where c: "c < length row" "x = row ! c" by (auto simp: in_set_conv_nth)
    from assms r row c have "r < 9" "c < 9" by (auto simp: grid9_def list_all_iff)
    with h r c show "x = None \<or> x \<in> Some ` {1..9}" by (cases x) auto
  qed
qed

subsection \<open>Writing a cell\<close>

lemma grid9_setCell: "grid9 board \<Longrightarrow> grid9 (setCell board row col v)"
proof -
  assume g: "grid9 board"
  show ?thesis
  proof (cases "row < 9")
    case True
    with g have "length ((board ! row)[col := v]) = 9" by (simp add: grid9_def list_all_iff)
    with g show ?thesis
      unfolding grid9_def setCell_def list_all_iff
      by (auto dest!: set_update_subset_insert [THEN subsetD])
  next
    case False
    with g show ?thesis by (simp add: grid9_def setCell_def list_update_beyond)
  qed
qed

lemma setCell_nth:
  assumes "grid9 board" "row < 9" "col < 9" "r < 9" "c < 9"
  shows "setCell board row col v ! r ! c = (if (r, c) = (row, col) then v else board ! r ! c)"
proof -
  from assms have "length board = 9" "length (board ! row) = 9"
    by (simp_all add: grid9_def list_all_iff)
  with assms show ?thesis by (auto simp: setCell_def nth_list_update)
qed

lemma setCell_undo:
  assumes "grid9 board" "row < 9" "col < 9" "board ! row ! col = None"
  shows "setCell (setCell board row col v) row col None = board"
proof -
  from assms have l: "row < length board" by (simp add: grid9_def)
  have "(board ! row)[col := None] = board ! row"
    using list_update_id [of "board ! row" col] assms(4) by simp
  then have "board[row := (board ! row)[col := None]] = board"
    by simp
  with l show ?thesis by (simp add: setCell_def)
qed

subsection \<open>Finding the first empty cell\<close>

lemma findEmptyCell_None: "(findEmptyCell board = None) = isFull board"
  unfolding findEmptyCell_def find_None_iff isFull_iff
  by (simp add: Bex_def) 

lemma findEmptyCell_Some:
  "findEmptyCell board = Some (row, col) \<Longrightarrow> row < 9 \<and> col < 9 \<and> board ! row ! col = None"
proof -
  assume "findEmptyCell board = Some (row, col)"
  then obtain i where i: "i < length positions" "positions ! i = (row, col)"
    "(\<lambda>(i, j). board ! i ! j = None) (positions ! i)"
    unfolding findEmptyCell_def find_Some_iff positions_def [symmetric] by metis
  from i(1) have "positions ! i \<in> set positions" by (rule nth_mem)
  with i(2) have "row < 9 \<and> col < 9" by (simp add: in_positions)
  with i(2,3) show ?thesis by simp
qed

subsection \<open>Counting cells, shuffling\<close>

lemma sameUnit_sym: "sameUnit p q \<Longrightarrow> sameUnit q p"
  unfolding sameUnit_def by metis

lemma distinct_positions: "distinct positions"
  by (simp add: positions_def distinct_product)

lemma filter_flip_one:
  assumes "distinct xs" "p \<in> set xs" "\<And>q. q \<in> set xs \<Longrightarrow> q \<noteq> p \<Longrightarrow> P' q = P q"
    "P p" "\<not> P' p"
  shows "Suc (length (filter P' xs)) = length (filter P xs)"
  using assms
proof (induction xs)
  case Nil
  then show ?case by simp
next
  case (Cons x xs)
  show ?case
  proof (cases "x = p")
    case True
    with Cons.prems(1) have "p \<notin> set xs" by simp
    with Cons.prems(3) True have "\<And>q. q \<in> set xs \<Longrightarrow> P' q = P q" by auto
    then have "filter P' xs = filter P xs" by (intro filter_cong) auto
    with True Cons.prems(4,5) show ?thesis by simp
  next
    case False
    with Cons.prems have "p \<in> set xs" "distinct xs" "P' x = P x" by auto
    with Cons.IH Cons.prems(3,4,5) have "Suc (length (filter P' xs)) = length (filter P xs)"
      by auto
    with \<open>P' x = P x\<close> show ?thesis by simp
  qed
qed

lemma cellAt_setCell:
  assumes "grid9 board" "row < 9" "col < 9" "q \<in> set positions"
  shows "cellAt (setCell board row col v) q = (if q = (row, col) then v else cellAt board q)"
proof -
  obtain r c where q: "q = (r, c)" by (cases q)
  with assms(4) have "r < 9" "c < 9" by (simp_all add: in_positions)
  with setCell_nth [OF assms(1-3) this] q show ?thesis by (simp add: cellAt_def)
qed

lemma emptyCount_fill:
  assumes "grid9 board" "row < 9" "col < 9" "board ! row ! col = None"
  shows "Suc (emptyCount (setCell board row col (Some v))) = emptyCount board"
  unfolding emptyCount_def
proof (rule filter_flip_one [OF distinct_positions, of "(row, col)"])
  show "(row, col) \<in> set positions" using assms(2,3) by (simp add: in_positions)
  show "cellAt board (row, col) = None" using assms(4) by (simp add: cellAt_def)
  show "cellAt (setCell board row col (Some v)) (row, col) \<noteq> None"
    using setCell_nth [OF assms(1-3) assms(2,3)] by (simp add: cellAt_def)
  show "(cellAt (setCell board row col (Some v)) q = None) = (cellAt board q = None)"
    if "q \<in> set positions" "q \<noteq> (row, col)" for q
    using cellAt_setCell [OF assms(1-3) that(1)] that(2) by simp
qed

lemma filledCount_clear:
  assumes "grid9 board" "row < 9" "col < 9" "board ! row ! col \<noteq> None"
  shows "Suc (filledCount (setCell board row col None)) = filledCount board"
  unfolding filledCount_def
proof (rule filter_flip_one [OF distinct_positions, of "(row, col)"])
  show "(row, col) \<in> set positions" using assms(2,3) by (simp add: in_positions)
  show "cellAt board (row, col) \<noteq> None" using assms(4) by (simp add: cellAt_def)
  show "\<not> cellAt (setCell board row col None) (row, col) \<noteq> None"
    using setCell_nth [OF assms(1-3) assms(2,3)] by (simp add: cellAt_def)
  show "(cellAt (setCell board row col None) q \<noteq> None) = (cellAt board q \<noteq> None)"
    if "q \<in> set positions" "q \<noteq> (row, col)" for q
    using cellAt_setCell [OF assms(1-3) that(1)] that(2) by simp
qed

lemma shuffle_set: "i < length numbers \<Longrightarrow> set (fst (shuffle rng k numbers i)) = set numbers"
proof (induction i arbitrary: k numbers)
  case 0
  show ?case by simp
next
  case (Suc i)
  define j where "j = randomBelow rng k (Suc i + 1)"
  have "j < Suc i + 1" unfolding j_def randomBelow_def by (rule mod_less_divisor) simp
  with Suc.prems have j: "j < length numbers" by simp
  define numbers' where "numbers' = numbers[Suc i := numbers ! j, j := numbers ! Suc i]"
  have s: "set numbers' = set numbers"
    unfolding numbers'_def using Suc.prems j by (rule set_swap)
  have l: "i < length numbers'" using Suc.prems by (simp add: numbers'_def)
  have "shuffle rng k numbers (Suc i) = shuffle rng (Suc k) numbers' i"
    by (simp add: Let_def j_def numbers'_def)
  with Suc.IH [OF l] s show ?case by simp
qed

lemma shuffle_numbers:
  "shuffle rng k [1, 2, 3, 4, 5, 6, 7, 8, 9] 8 = (numbers, k') \<Longrightarrow> set numbers = {1..9}"
proof -
  assume h: "shuffle rng k [1, 2, 3, 4, 5, 6, 7, 8, 9] 8 = (numbers, k')"
  have s: "set [1, 2, 3, 4, 5, 6, 7, 8, 9] = {1..9::int}"
  proof -
    have "{1..9::int} = set [1..9]" by simp
    also have "[1..9] = [1, 2, 3, 4, 5, 6, 7, 8, 9::int]" by code_simp
    finally show ?thesis by simp
  qed
  have "set (fst (shuffle rng k [1, 2, 3, 4, 5, 6, 7, 8, 9] 8)) = set [1, 2, 3, 4, 5, 6, 7, 8, 9::int]"
    by (rule shuffle_set) simp
  with h s show ?thesis by simp
qed

subsection \<open>Placing a valid candidate keeps the grid free of conflicts\<close>

lemma setCell_same:
  assumes "grid9 board" "row < 9" "col < 9"
  shows "setCell board row col v ! row ! col = v"
  using setCell_nth [OF assms assms(2,3)] by simp

lemma setCell_other:
  assumes "grid9 board" "row < 9" "col < 9" "r < 9" "c < 9" "(r, c) \<noteq> (row, col)"
  shows "setCell board row col v ! r ! c = board ! r ! c"
  using setCell_nth [OF assms(1-5)] assms(6) by auto

lemma place_conflictFree:
  assumes g: "grid9 board" and cf: "conflictFree board"
    and rc: "row < 9" "col < 9" and e: "board ! row ! col = None"
    and v: "isValidPlacement board row col num"
  shows "conflictFree (setCell board row col (Some num))"
  unfolding conflictFree_iff
proof (intro allI impI)
  fix r c :: nat assume r: "r < 9" and c: "c < 9"
  let ?new = "setCell board row col (Some num)"
  from v have nv: "\<And>r' c'. r' < 9 \<Longrightarrow> c' < 9 \<Longrightarrow> sameUnit (row, col) (r', c') \<Longrightarrow>
      board ! r' ! c' \<noteq> Some num"
    unfolding isValidPlacement_scan [OF rc] by blast
  show "\<not> duplicated ?new r c"
  proof
    assume "duplicated ?new r c"
    then obtain r' c' where d: "?new ! r ! c \<noteq> None" "r' < 9" "c' < 9" "(r', c') \<noteq> (r, c)"
      "sameUnit (r, c) (r', c')" "?new ! r' ! c' = ?new ! r ! c"
      unfolding duplicated_iff by blast
    note same = setCell_same [OF g rc, of "Some num"]
    note n1 = setCell_other [OF g rc r c, of "Some num"]
    note n2 = setCell_other [OF g rc d(2,3), of "Some num"]
    show False
    proof (cases "(r, c) = (row, col)")
      case True
      with d(4) have ne: "(r', c') \<noteq> (row, col)" by simp
      from True same have "?new ! r ! c = Some num" by simp
      with d(6) n2 [OF ne] have "board ! r' ! c' = Some num" by simp
      moreover from d(5) True have "sameUnit (row, col) (r', c')" by simp
      ultimately show False using nv [OF d(2,3)] by simp
    next
      case False
      then have o: "?new ! r ! c = board ! r ! c" by (rule n1)
      show False
      proof (cases "(r', c') = (row, col)")
        case True
        with same have "?new ! r' ! c' = Some num" by simp
        with d(6) o have "board ! r ! c = Some num" by simp
        moreover from d(5) True have "sameUnit (row, col) (r, c)"
          using sameUnit_sym by simp
        ultimately show False using nv [OF r c] by simp
      next
        case False
        then have "?new ! r' ! c' = board ! r' ! c'" by (rule n2)
        with d o have "duplicated board r c" unfolding duplicated_iff by metis
        with cf r c show False unfolding conflictFree_iff by simp
      qed
    qed
  qed
qed

lemma place_cellsInRange:
  assumes g: "grid9 board" and cr: "cellsInRange board"
    and rc: "row < 9" "col < 9" and v: "num \<in> {1..9}"
  shows "cellsInRange (setCell board row col (Some num))"
  unfolding cellsInRange_iff [OF grid9_setCell [OF g]]
proof (intro allI impI)
  fix r c :: nat and w assume r: "r < 9" and c: "c < 9"
    and w: "setCell board row col (Some num) ! r ! c = Some w"
  show "w \<in> {1..9}"
  proof (cases "(r, c) = (row, col)")
    case True
    with w setCell_same [OF g rc, of "Some num"] v show ?thesis by simp
  next
    case False
    then have "setCell board row col (Some num) ! r ! c = board ! r ! c"
      by (rule setCell_other [OF g rc r c])
    with w have "board ! r ! c = Some w" by simp
    with cr r c show ?thesis unfolding cellsInRange_iff [OF g] by blast
  qed
qed

subsection \<open>The generator: what a successful run leaves\<close>

lemma tryNumbers_sound:
  assumes rec: "\<And>k b res b' k'. grid9 b \<Longrightarrow> cellsInRange b \<Longrightarrow> conflictFree b \<Longrightarrow>
      rec k b = Some (res, b', k') \<Longrightarrow>
      grid9 b' \<and> (res \<longrightarrow> cellsInRange b' \<and> conflictFree b' \<and> isFull b') \<and> (\<not> res \<longrightarrow> b' = b)"
    and b: "grid9 board" "cellsInRange board" "conflictFree board"
    and rc: "row < 9" "col < 9" and e: "board ! row ! col = None"
    and nums: "set nums \<subseteq> {1..9}"
    and run: "tryNumbers rec k board row col nums = Some (res, board', k')"
  shows "grid9 board' \<and> (res \<longrightarrow> cellsInRange board' \<and> conflictFree board' \<and> isFull board') \<and>
     (\<not> res \<longrightarrow> board' = board)"
  using nums run
proof (induction nums arbitrary: k)
  case Nil
  with b(1) show ?case by simp
next
  case (Cons num rest)
  from Cons.prems(1) have num: "num \<in> {1..9}" and rest: "set rest \<subseteq> {1..9}" by simp_all
  show ?case
  proof (cases "isValidPlacement board row col num")
    case False
    with Cons.prems(2) have "tryNumbers rec k board row col rest = Some (res, board', k')" by simp
    with Cons.IH [OF rest] show ?thesis .
  next
    case True
    let ?new = "setCell board row col (Some num)"
    have new: "grid9 ?new" "cellsInRange ?new" "conflictFree ?new"
      using grid9_setCell [OF b(1)] place_cellsInRange [OF b(1,2) rc num]
        place_conflictFree [OF b(1,3) rc e True] by simp_all
    from True Cons.prems(2) obtain r1 b1 k1 where r1: "rec k ?new = Some (r1, b1, k1)"
      by (cases "rec k ?new") auto
    note p = rec [OF new r1]
    show ?thesis
    proof (cases r1)
      case True
      with r1 \<open>isValidPlacement board row col num\<close> Cons.prems(2)
      have "res = True" "board' = b1" by simp_all
      with p True show ?thesis by simp
    next
      case False
      with p have "b1 = ?new" by simp
      then have "setCell b1 row col None = board" using setCell_undo [OF b(1) rc e] by simp
      with r1 False \<open>isValidPlacement board row col num\<close> Cons.prems(2)
      have "tryNumbers rec k1 board row col rest = Some (res, board', k')" by simp
      with Cons.IH [OF rest] show ?thesis .
    qed
  qed
qed

lemma generateSolution_sound:
  "grid9 board \<Longrightarrow> cellsInRange board \<Longrightarrow> conflictFree board \<Longrightarrow>
   generateSolution fuel rng k board = Some (res, board', k') \<Longrightarrow>
   grid9 board' \<and> (res \<longrightarrow> cellsInRange board' \<and> conflictFree board' \<and> isFull board') \<and>
     (\<not> res \<longrightarrow> board' = board)"
proof (induction fuel arbitrary: k board res board' k')
  case 0
  then show ?case by simp
next
  case (Suc fuel)
  show ?case
  proof (cases "findEmptyCell board")
    case None
    with Suc.prems(4) have "res = True" "board' = board" by simp_all
    with None Suc.prems(1-3) show ?thesis by (simp add: findEmptyCell_None)
  next
    case (Some p)
    obtain row col where p: "p = (row, col)" by (cases p)
    obtain numbers k1 where sh: "shuffle rng k [1, 2, 3, 4, 5, 6, 7, 8, 9] 8 = (numbers, k1)"
      by (cases "shuffle rng k [1, 2, 3, 4, 5, 6, 7, 8, 9] 8")
    from Some p findEmptyCell_Some have rc: "row < 9" "col < 9" and e: "board ! row ! col = None"
      by blast+
    from shuffle_numbers [OF sh] have nums: "set numbers \<subseteq> {1..9}" by simp
    from Suc.prems(4) Some p sh
    have run: "tryNumbers (generateSolution fuel rng) k1 board row col numbers = Some (res, board', k')"
      by simp
    show ?thesis
      by (rule tryNumbers_sound [OF Suc.IH Suc.prems(1-3) rc e nums run])
  qed
qed

subsection \<open>The generator: it returns, and finds a solution when there is one\<close>

lemma tryNumbers_total:
  assumes rec: "\<And>k b. grid9 b \<Longrightarrow> emptyCount b < n \<Longrightarrow>
      \<exists>res b' k'. rec k b = Some (res, b', k') \<and> (\<not> res \<longrightarrow> b' = b)"
    and b: "grid9 board" and rc: "row < 9" "col < 9" and e: "board ! row ! col = None"
    and n: "emptyCount board \<le> n"
  shows "\<exists>res board' k'. tryNumbers rec k board row col nums = Some (res, board', k') \<and>
     (\<not> res \<longrightarrow> board' = board)"
proof (induction nums arbitrary: k)
  case Nil
  show ?case by auto
next
  case (Cons num rest)
  show ?case
  proof (cases "isValidPlacement board row col num")
    case False
    with Cons.IH [of k] show ?thesis by simp
  next
    case True
    let ?new = "setCell board row col (Some num)"
    from emptyCount_fill [OF b rc e, of num] n have "emptyCount ?new < n" by simp
    from rec [OF grid9_setCell [OF b] this, of k] obtain r1 b1 k1 where
      r1: "rec k ?new = Some (r1, b1, k1)" "\<not> r1 \<longrightarrow> b1 = ?new" by blast
    show ?thesis
    proof (cases r1)
      case True
      with r1(1) \<open>isValidPlacement board row col num\<close> show ?thesis by auto
    next
      case False
      with r1(2) have "setCell b1 row col None = board" using setCell_undo [OF b rc e] by simp
      with r1(1) False \<open>isValidPlacement board row col num\<close>
      have "tryNumbers rec k board row col (num # rest) = tryNumbers rec k1 board row col rest"
        by simp
      with Cons.IH [of k1] show ?thesis by simp
    qed
  qed
qed

lemma generateSolution_total:
  "grid9 board \<Longrightarrow> emptyCount board < fuel \<Longrightarrow>
   \<exists>res board' k'. generateSolution fuel rng k board = Some (res, board', k') \<and>
     (\<not> res \<longrightarrow> board' = board)"
proof (induction fuel arbitrary: k board)
  case 0
  then show ?case by simp
next
  case (Suc fuel)
  show ?case
  proof (cases "findEmptyCell board")
    case None
    then show ?thesis by auto
  next
    case (Some p)
    obtain row col where p: "p = (row, col)" by (cases p)
    obtain numbers k1 where sh: "shuffle rng k [1, 2, 3, 4, 5, 6, 7, 8, 9] 8 = (numbers, k1)"
      by (cases "shuffle rng k [1, 2, 3, 4, 5, 6, 7, 8, 9] 8")
    from Some p findEmptyCell_Some have rc: "row < 9" "col < 9" and e: "board ! row ! col = None"
      by blast+
    from Suc.prems(2) have n: "emptyCount board \<le> fuel" by simp
    from tryNumbers_total [of fuel "generateSolution fuel rng", OF Suc.IH Suc.prems(1) rc e n,
        of k1 numbers]
    show ?thesis using Some p sh by simp
  qed
qed

lemma solution_cell:
  assumes "solutionOf board g" "row < 9" "col < 9"
  shows "\<exists>v\<in>{1..9}. g ! row ! col = Some v"
proof -
  from assms have "grid9 g" "cellsInRange g" "g ! row ! col \<noteq> None"
    by (simp_all add: solutionOf_def isFull_iff)
  then show ?thesis using cellsInRange_nth [OF _ _ assms(2,3)] by auto
qed

lemma solution_candidate_valid:
  assumes s: "solutionOf board g" and rc: "row < 9" "col < 9"
    and e: "board ! row ! col = None" and v: "g ! row ! col = Some v"
  shows "isValidPlacement board row col v"
  unfolding isValidPlacement_scan [OF rc]
proof
  assume "\<exists>r<9. \<exists>c<9. sameUnit (row, col) (r, c) \<and> board ! r ! c = Some v"
  then obtain r c where h: "r < 9" "c < 9" "sameUnit (row, col) (r, c)" "board ! r ! c = Some v"
    by blast
  from h(4) e have ne: "(r, c) \<noteq> (row, col)" by auto
  from s h(1,2,4) have "g ! r ! c = Some v" by (simp add: solutionOf_def keepsCells_iff)
  with v h ne have "duplicated g row col" unfolding duplicated_iff by auto
  with s rc show False by (simp add: solutionOf_def conflictFree_iff)
qed

lemma solution_after_place:
  assumes s: "solutionOf board g" and b: "grid9 board" and rc: "row < 9" "col < 9"
    and v: "g ! row ! col = Some v"
  shows "solutionOf (setCell board row col (Some v)) g"
proof -
  have "keepsCells (setCell board row col (Some v)) g"
    unfolding keepsCells_iff
  proof (intro allI impI)
    fix r c :: nat assume r: "r < 9" and c: "c < 9"
      and f: "setCell board row col (Some v) ! r ! c \<noteq> None"
    show "g ! r ! c = setCell board row col (Some v) ! r ! c"
    proof (cases "(r, c) = (row, col)")
      case True
      with v setCell_same [OF b rc, of "Some v"] show ?thesis by simp
    next
      case False
      then have o: "setCell board row col (Some v) ! r ! c = board ! r ! c"
        by (rule setCell_other [OF b rc r c])
      with f s r c show ?thesis by (simp add: solutionOf_def keepsCells_iff)
    qed
  qed
  with s show ?thesis by (simp add: solutionOf_def)
qed

lemma tryNumbers_complete:
  assumes tot: "\<And>k b. grid9 b \<Longrightarrow> emptyCount b < n \<Longrightarrow>
      \<exists>res b' k'. rec k b = Some (res, b', k') \<and> (\<not> res \<longrightarrow> b' = b)"
    and com: "\<And>k b. grid9 b \<Longrightarrow> emptyCount b < n \<Longrightarrow> solutionOf b g \<Longrightarrow>
      \<exists>b' k'. rec k b = Some (True, b', k')"
    and b: "grid9 board" and rc: "row < 9" "col < 9" and e: "board ! row ! col = None"
    and n: "emptyCount board \<le> n"
    and s: "solutionOf board g" and v: "g ! row ! col = Some v"
  shows "v \<in> set nums \<Longrightarrow> \<exists>board' k'. tryNumbers rec k board row col nums = Some (True, board', k')"
proof (induction nums arbitrary: k)
  case Nil
  then show ?case by simp
next
  case (Cons num rest)
  note valid_v = solution_candidate_valid [OF s rc e v]
  show ?case
  proof (cases "isValidPlacement board row col num")
    case False
    with valid_v have "num \<noteq> v" by auto
    with Cons.prems have "v \<in> set rest" by simp
    from Cons.IH [OF this, of k] False show ?thesis by simp
  next
    case True
    let ?new = "setCell board row col (Some num)"
    from emptyCount_fill [OF b rc e, of num] n have lt: "emptyCount ?new < n" by simp
    from tot [OF grid9_setCell [OF b] lt, of k] obtain r1 b1 k1 where
      r1: "rec k ?new = Some (r1, b1, k1)" "\<not> r1 \<longrightarrow> b1 = ?new" by blast
    show ?thesis
    proof (cases r1)
      case True
      with r1(1) \<open>isValidPlacement board row col num\<close> show ?thesis by simp
    next
      case False
      have "num \<noteq> v"
      proof
        assume "num = v"
        with solution_after_place [OF s b rc v] have "solutionOf ?new g" by simp
        from com [OF grid9_setCell [OF b] lt this, of k] r1(1) False show False by simp
      qed
      with Cons.prems have in_rest: "v \<in> set rest" by simp
      from False r1(2) have "setCell b1 row col None = board"
        using setCell_undo [OF b rc e] by simp
      with r1(1) False \<open>isValidPlacement board row col num\<close>
      have "tryNumbers rec k board row col (num # rest) = tryNumbers rec k1 board row col rest"
        by simp
      with Cons.IH [OF in_rest, of k1] show ?thesis by simp
    qed
  qed
qed

lemma generateSolution_complete:
  "grid9 board \<Longrightarrow> emptyCount board < fuel \<Longrightarrow> solutionOf board g \<Longrightarrow>
   \<exists>board' k'. generateSolution fuel rng k board = Some (True, board', k')"
proof (induction fuel arbitrary: k board)
  case 0
  then show ?case by simp
next
  case (Suc fuel)
  show ?case
  proof (cases "findEmptyCell board")
    case None
    then show ?thesis by simp
  next
    case (Some p)
    obtain row col where p: "p = (row, col)" by (cases p)
    obtain numbers k1 where sh: "shuffle rng k [1, 2, 3, 4, 5, 6, 7, 8, 9] 8 = (numbers, k1)"
      by (cases "shuffle rng k [1, 2, 3, 4, 5, 6, 7, 8, 9] 8")
    from Some p findEmptyCell_Some have rc: "row < 9" "col < 9" and e: "board ! row ! col = None"
      by blast+
    from Suc.prems(2) have n: "emptyCount board \<le> fuel" by simp
    from solution_cell [OF Suc.prems(3) rc] obtain v where
      v: "v \<in> {1..9}" "g ! row ! col = Some v" by blast
    with shuffle_numbers [OF sh] have mem: "v \<in> set numbers" by simp
    have tot: "\<exists>res b' k'. generateSolution fuel rng k b = Some (res, b', k') \<and> (\<not> res \<longrightarrow> b' = b)"
      if "grid9 b" "emptyCount b < fuel" for k b
      using that by (rule generateSolution_total)
    have com: "\<exists>b' k'. generateSolution fuel rng k b = Some (True, b', k')"
      if "grid9 b" "emptyCount b < fuel" "solutionOf b g" for k b
      using that by (rule Suc.IH)
    from tryNumbers_complete [of fuel "generateSolution fuel rng" g, OF tot com Suc.prems(1) rc e n
        Suc.prems(3) v(2) mem, of k1]
    show ?thesis using Some p sh by simp
  qed
qed

subsection \<open>A full grid without conflicts has every value once in every unit\<close>

lemma set_numbers: "set [1, 2, 3, 4, 5, 6, 7, 8, 9] = {1..9::int}"
proof -
  have "{1..9::int} = set [1..9]" by simp
  also have "[1..9] = [1, 2, 3, 4, 5, 6, 7, 8, 9::int]" by code_simp
  finally show ?thesis by simp
qed

lemma count_list_distinct: "distinct xs \<Longrightarrow> x \<in> set xs \<Longrightarrow> count_list xs x = 1"
  by (induction xs) (auto simp: count_list_0_iff)

lemma units_shape:
  "list_all (\<lambda>u. distinct u \<and> length u = 9 \<and>
      list_all (\<lambda>p. fst p < 9 \<and> snd p < 9 \<and> list_all (\<lambda>q. sameUnit p q) u) u) units"
  by code_simp

lemma unit_facts:
  assumes "u \<in> set units"
  shows "distinct u" "length u = 9"
    "\<And>p. p \<in> set u \<Longrightarrow> fst p < 9 \<and> snd p < 9"
    "\<And>p q. p \<in> set u \<Longrightarrow> q \<in> set u \<Longrightarrow> sameUnit p q"
  using units_shape assms unfolding list_all_iff by blast+

lemma full_conflictFree_eachOnce:
  assumes g: "grid9 board" and cr: "cellsInRange board" and cf: "conflictFree board"
    and f: "isFull board"
  shows "eachOnce board"
  unfolding eachOnce_def list_all_iff set_numbers
proof (intro ballI)
  fix u v assume u: "u \<in> set units" and v: "v \<in> {1..9::int}"
  note uf = unit_facts [OF u]
  let ?vs = "map (cellAt board) u"
  have range: "cellAt board p \<in> Some ` {1..9}" if "p \<in> set u" for p
  proof -
    from uf(3) [OF that] have lt: "fst p < 9" "snd p < 9" by simp_all
    with f obtain w where w: "board ! fst p ! snd p = Some w" unfolding isFull_iff by blast
    from cellsInRange_nth [OF g cr lt w] w show ?thesis by (simp add: cellAt_def)
  qed
  have inj: "inj_on (cellAt board) (set u)"
  proof (rule inj_onI)
    fix p q assume p: "p \<in> set u" and q: "q \<in> set u" and eq: "cellAt board p = cellAt board q"
    show "p = q"
    proof (rule ccontr)
      assume ne: "p \<noteq> q"
      obtain r c where pr: "p = (r, c)" by (cases p)
      obtain r' c' where qr: "q = (r', c')" by (cases q)
      from uf(3) [OF p] uf(3) [OF q] pr qr have lt: "r < 9" "c < 9" "r' < 9" "c' < 9" by simp_all
      from uf(4) [OF p q] pr qr have su: "sameUnit (r, c) (r', c')" by simp
      from range [OF p] pr have "board ! r ! c \<noteq> None" by (auto simp: cellAt_def)
      moreover from eq pr qr have "board ! r' ! c' = board ! r ! c" by (simp add: cellAt_def)
      moreover from ne pr qr have "(r', c') \<noteq> (r, c)" by auto
      ultimately have "duplicated board r c" unfolding duplicated_iff using lt su by blast
      with cf lt show False by (simp add: conflictFree_iff)
    qed
  qed
  from uf(1) inj have d: "distinct ?vs" by (simp add: distinct_map)
  from distinct_card [OF d] uf(2) have "card (set ?vs) = 9" by simp
  moreover have "set ?vs \<subseteq> Some ` {1..9::int}" using range by auto
  moreover have "card (Some ` {1..9::int}) = 9" by (simp add: card_image)
  ultimately have "set ?vs = Some ` {1..9::int}" by (intro card_subset_eq) simp_all
  with v have "Some v \<in> set ?vs" by blast
  with d show "count_list ?vs (Some v) = 1" by (rule count_list_distinct)
qed

subsection \<open>C2 and C8: the solution generator\<close>

lemma emptyCount_le: "emptyCount board \<le> 81"
proof -
  have "length positions = 81" by (simp add: positions_def)
  with length_filter_le [of "\<lambda>q. cellAt board q = None" positions]
  show ?thesis by (simp add: emptyCount_def)
qed

lemma solutionOf_emptyBoard: "solutionOf emptyBoard solvedExample"
  by code_simp

lemma lastTwoOpen_ok: "grid9 lastTwoOpen \<and> cellsInRange lastTwoOpen \<and> conflictFree lastTwoOpen"
  by code_simp

lemma lastTwoOpen_run: "generateSolution 3 zeroRnd 0 lastTwoOpen = Some (True, solvedExample, 16)"
  by code_simp

lemma grid9_stuckBoard: "grid9 stuckBoard"
  by code_simp

lemma stuckBoard_run: "generateSolution 82 zeroRnd 0 stuckBoard = Some (False, stuckBoard, 8)"
  by code_simp

text \<open>Success always means a full grid, whatever the starting grid held.\<close>

lemma tryNumbers_true_full:
  assumes rec: "\<And>k b b' k'. rec k b = Some (True, b', k') \<Longrightarrow> isFull b'"
  shows "tryNumbers rec k board row col nums = Some (True, board', k') \<Longrightarrow> isFull board'"
proof (induction nums arbitrary: k board)
  case Nil
  then show ?case by simp
next
  case (Cons num rest)
  show ?case
  proof (cases "isValidPlacement board row col num")
    case False
    with Cons.prems have "tryNumbers rec k board row col rest = Some (True, board', k')" by simp
    then show ?thesis by (rule Cons.IH)
  next
    case True
    with Cons.prems obtain r1 b1 k1 where
      r1: "rec k (setCell board row col (Some num)) = Some (r1, b1, k1)"
      by (cases "rec k (setCell board row col (Some num))") auto
    show ?thesis
    proof (cases r1)
      case True
      with r1 \<open>isValidPlacement board row col num\<close> Cons.prems
      have "board' = b1" by simp
      with r1 True rec show ?thesis by simp
    next
      case False
      with r1 \<open>isValidPlacement board row col num\<close> Cons.prems
      have "tryNumbers rec k1 (setCell b1 row col None) row col rest = Some (True, board', k')"
        by simp
      then show ?thesis by (rule Cons.IH)
    qed
  qed
qed

lemma generateSolution_true_full:
  "generateSolution fuel rng k board = Some (True, board', k') \<Longrightarrow> isFull board'"
proof (induction fuel arbitrary: k board board' k')
  case 0
  then show ?case by simp
next
  case (Suc fuel)
  show ?case
  proof (cases "findEmptyCell board")
    case None
    with Suc.prems have "board' = board" by simp
    with None show ?thesis by (simp add: findEmptyCell_None)
  next
    case (Some p)
    obtain row col where p: "p = (row, col)" by (cases p)
    obtain numbers k1 where sh: "shuffle rng k [1, 2, 3, 4, 5, 6, 7, 8, 9] 8 = (numbers, k1)"
      by (cases "shuffle rng k [1, 2, 3, 4, 5, 6, 7, 8, 9] 8")
    from Suc.prems Some p sh
    have "tryNumbers (generateSolution fuel rng) k1 board row col numbers = Some (True, board', k')"
      by simp
    then show ?thesis by (rule tryNumbers_true_full [rotated]) (rule Suc.IH)
  qed
qed

lemma allOnes_run: "generateSolution 1 zeroRnd 0 allOnes = Some (True, allOnes, 0)"
  by code_simp

lemma grid9_allOnes: "grid9 allOnes"
  by code_simp

lemma emptyBoard_ok: "cellsInRange emptyBoard \<and> conflictFree emptyBoard"
  by (simp add: cellsInRange_emptyBoard conflictFree_iff duplicated_iff emptyBoard_nth)

text \<open>
  C2, as stated for every grid, fails: on the full grid of 1s \<open>findEmptyCell\<close>
  finds nothing, \<open>generateSolution\<close> returns true at once and leaves the grid as
  it is, with nine 1s in every unit.
\<close>

theorem generateSolution_allOnes_counterexample:
  "generateSolution 1 zeroRnd 0 allOnes = Some (True, allOnes, 0) \<and> grid9 allOnes \<and>
   \<not> eachOnce allOnes"
  by code_simp

text \<open>
  C2 (amended): for every 9x9 grid on which \<open>generateSolution\<close> returns true,
  the resulting grid is fully filled; and when the filled cells of the starting
  grid hold values in 1..9, no value twice in a row, column or box (the empty
  grid is such a grid), every row, column and box of the result contains each
  value 1..9 exactly once.
\<close>

theorem generateSolution_success_valid:
  assumes "grid9 board"
    and "generateSolution fuel rng k board = Some (True, board', k')"
  shows "isFull board' \<and> (cellsInRange board \<and> conflictFree board \<longrightarrow> eachOnce board')"
proof (intro conjI impI)
  show "isFull board'" using assms(2) by (rule generateSolution_true_full)
next
  assume "cellsInRange board \<and> conflictFree board"
  then have s: "cellsInRange board" "conflictFree board" by simp_all
  from generateSolution_sound [OF assms(1) s assms(2)]
  have r: "grid9 board'" "cellsInRange board'" "conflictFree board'" "isFull board'"
    by simp_all
  show "eachOnce board'" by (rule full_conflictFree_eachOnce [OF r])
qed

theorem generateSolution_success_valid_witness:
  "grid9 lastTwoOpen \<and> cellsInRange lastTwoOpen \<and> conflictFree lastTwoOpen \<and>
   generateSolution 3 zeroRnd 0 lastTwoOpen = Some (True, solvedExample, 16) \<and>
   isFull solvedExample \<and> eachOnce solvedExample \<and>
   grid9 allOnes \<and> generateSolution 1 zeroRnd 0 allOnes = Some (True, allOnes, 0) \<and>
   isFull allOnes"
proof -
  from lastTwoOpen_ok have h: "grid9 lastTwoOpen" "cellsInRange lastTwoOpen"
    "conflictFree lastTwoOpen" by simp_all
  from generateSolution_success_valid [OF h(1) lastTwoOpen_run] h(2,3)
  have a: "isFull solvedExample" "eachOnce solvedExample" by simp_all
  from generateSolution_success_valid [OF grid9_allOnes allOnes_run]
  have b: "isFull allOnes" by simp
  from a b h lastTwoOpen_run grid9_allOnes allOnes_run show ?thesis by simp
qed

text \<open>
  C8: on the empty 9x9 grid \<open>generateSolution\<close> returns, for every random
  source, and returns true with a full solution: the grid it leaves is fully
  filled and every row, column and box contains each value 1..9 exactly once.
  The recursion is never deeper than 82 calls, so any fuel from 82 on is enough.
  On any 9x9 grid it returns; true comes with a full grid, and false, with the
  grid left as it was, only when the grid is contradictory: no full grid of
  values 1..9 without conflicts keeps its filled cells.
\<close>

theorem generateSolution_terminates:
  "(\<exists>S k'. generateSolution (82 + n) rng k emptyBoard = Some (True, S, k') \<and>
      isFull S \<and> eachOnce S) \<and>
   (\<forall>board. grid9 board \<longrightarrow>
      (\<exists>res board' k'. generateSolution (82 + n) rng k board = Some (res, board', k') \<and>
         (res = True \<longrightarrow> isFull board') \<and>
         (res = False \<longrightarrow> board' = board \<and> \<not> (\<exists>g. solutionOf board g))))"
proof (intro conjI allI impI)
  have "emptyCount emptyBoard < 82 + n" using emptyCount_le [of emptyBoard] by simp
  from generateSolution_complete [OF grid9_emptyBoard this solutionOf_emptyBoard, of rng k]
  obtain S k' where r: "generateSolution (82 + n) rng k emptyBoard = Some (True, S, k')"
    by blast
  from emptyBoard_ok have e: "cellsInRange emptyBoard" "conflictFree emptyBoard" by simp_all
  from generateSolution_sound [OF grid9_emptyBoard e r]
  have s: "grid9 S" "cellsInRange S" "conflictFree S" "isFull S" by simp_all
  from r s(4) full_conflictFree_eachOnce [OF s]
  show "\<exists>S k'. generateSolution (82 + n) rng k emptyBoard = Some (True, S, k') \<and>
      isFull S \<and> eachOnce S" by blast
next
  fix board assume g: "grid9 board"
  have lt: "emptyCount board < 82 + n" using emptyCount_le [of board] by simp
  from generateSolution_total [OF g lt, of rng k] obtain res board' k' where
    r: "generateSolution (82 + n) rng k board = Some (res, board', k')"
      "\<not> res \<longrightarrow> board' = board" by blast
  have f: "isFull board'" if "res = True"
    using r(1) that generateSolution_true_full by simp
  have "\<not> (\<exists>g. solutionOf board g)" if "res = False"
  proof
    assume "\<exists>g. solutionOf board g"
    then obtain s where "solutionOf board s" ..
    from generateSolution_complete [OF g lt this, of rng k] r(1) that show False by simp
  qed
  with r f show "\<exists>res board' k'. generateSolution (82 + n) rng k board = Some (res, board', k') \<and>
         (res = True \<longrightarrow> isFull board') \<and>
         (res = False \<longrightarrow> board' = board \<and> \<not> (\<exists>g. solutionOf board g))" by blast
qed

theorem generateSolution_terminates_witness:
  "grid9 stuckBoard \<and> generateSolution 82 zeroRnd 0 stuckBoard = Some (False, stuckBoard, 8) \<and>
   \<not> (\<exists>g. solutionOf stuckBoard g)"
proof -
  note t = generateSolution_terminates [of 0 zeroRnd 0, THEN conjunct2, rule_format,
      OF grid9_stuckBoard]
  then obtain res board' k' where
    r: "generateSolution (82 + 0) zeroRnd 0 stuckBoard = Some (res, board', k')"
      "res = False \<longrightarrow> board' = stuckBoard \<and> \<not> (\<exists>g. solutionOf stuckBoard g)" by blast
  from r(1) stuckBoard_run have "res = False" by simp
  with r(2) have "\<not> (\<exists>g. solutionOf stuckBoard g)" by simp
  with grid9_stuckBoard stuckBoard_run show ?thesis by simp
qed

subsection \<open>The carving loop\<close>

lemma jsonCopy_id: "jsonCopy board = board"
  by (simp add: jsonCopy_def)

lemma randomBelow_lt: "0 < n \<Longrightarrow> randomBelow rng k n < n"
  by (simp add: randomBelow_def)

lemma removals_R:
  "(if difficulty = Easy then 35 else if difficulty = Medium then 45 else 55) = R difficulty"
  by (cases difficulty) simp_all

lemma filled_plus_empty: "filledCount board + emptyCount board = 81"
proof -
  have "length positions = 81" by (simp add: positions_def)
  with sum_length_filter_compl [of "\<lambda>q. cellAt board q = None" positions]
  show ?thesis by (simp add: filledCount_def emptyCount_def)
qed

lemma filledCount_full: "isFull board \<Longrightarrow> filledCount board = 81"
proof -
  assume "isFull board"
  then have "filter (\<lambda>q. cellAt board q \<noteq> None) positions = positions"
    by (simp add: isFull_def list_all_iff)
  then show ?thesis by (simp add: filledCount_def positions_def)
qed

text \<open>A finished loop has cleared exactly \<open>attempts\<close> filled cells and changed no other.\<close>

lemma carveLoop_result:
  "carveLoop fuel rng k puzzle attempts = Some (puzzle', k') \<Longrightarrow> grid9 puzzle \<Longrightarrow>
   grid9 puzzle' \<and> filledCount puzzle' + attempts = filledCount puzzle \<and>
   (\<forall>r<9. \<forall>c<9. puzzle' ! r ! c = None \<or> puzzle' ! r ! c = puzzle ! r ! c)"
proof (induction fuel arbitrary: k puzzle attempts)
  case 0
  then show ?case by (simp split: if_splits)
next
  case (Suc fuel)
  show ?case
  proof (cases "attempts > 0")
    case False
    with Suc.prems show ?thesis by simp
  next
    case True
    define row where "row = randomBelow rng k 9"
    define col where "col = randomBelow rng (k + 1) 9"
    have rc: "row < 9" "col < 9" by (simp_all add: row_def col_def randomBelow_lt)
    show ?thesis
    proof (cases "puzzle ! row ! col \<noteq> None")
      case False
      with True Suc.prems(1)
      have "carveLoop fuel rng (k + 2) puzzle attempts = Some (puzzle', k')"
        by (simp add: row_def col_def Let_def)
      from Suc.IH [OF this Suc.prems(2)] show ?thesis .
    next
      case filled: True
      let ?p = "setCell puzzle row col None"
      from True filled Suc.prems(1)
      have run: "carveLoop fuel rng (k + 2) ?p (attempts - 1) = Some (puzzle', k')"
        by (simp add: row_def col_def Let_def)
      note ih = Suc.IH [OF run grid9_setCell [OF Suc.prems(2)]]
      from ih have "filledCount puzzle' + (attempts - 1) = filledCount ?p" by (elim conjE)
      with filledCount_clear [OF Suc.prems(2) rc filled] True
      have cnt: "filledCount puzzle' + attempts = filledCount puzzle" by linarith
      from ih have c0: "\<forall>r<9. \<forall>c<9. puzzle' ! r ! c = None \<or> puzzle' ! r ! c = ?p ! r ! c"
        by (elim conjE)
      have cells: "puzzle' ! r ! c = None \<or> puzzle' ! r ! c = puzzle ! r ! c"
        if "r < 9" "c < 9" for r c
      proof (cases "(r, c) = (row, col)")
        case True
        with c0 [rule_format, OF that] setCell_same [OF Suc.prems(2) rc, of None]
        show ?thesis by simp
      next
        case False
        then have "?p ! r ! c = puzzle ! r ! c" by (rule setCell_other [OF Suc.prems(2) rc that])
        with c0 [rule_format, OF that] show ?thesis by simp
      qed
      from ih have "grid9 puzzle'" by (elim conjE)
      with cnt cells show ?thesis by simp
    qed
  qed
qed

lemma pickAt_shift: "pickAt rng k ` {..<Suc m} = insert (pickAt rng k 0) (pickAt rng (k + 2) ` {..<m})"
proof -
  have "pickAt rng k (Suc t) = pickAt rng (k + 2) t" for t
    by (simp add: pickAt_def)
  then have "pickAt rng k ` Suc ` {..<m} = pickAt rng (k + 2) ` {..<m}"
    by (simp add: image_image)
  then show ?thesis by (simp add: lessThan_Suc_eq_insert_0)
qed

lemma pickAt_0: "pickAt rng k 0 = (randomBelow rng k 9, randomBelow rng (k + 1) 9)"
  by (simp add: pickAt_def)

text \<open>
  The loop ends within \<open>m\<close> iterations when the cells picked in them include
  \<open>attempts\<close> distinct filled cells.
\<close>

lemma carveLoop_returns:
  "grid9 puzzle \<Longrightarrow>
   attempts \<le> card (pickAt rng k ` {..<m} \<inter> {q \<in> set positions. cellAt puzzle q \<noteq> None}) \<Longrightarrow>
   \<exists>puzzle' k'. carveLoop m rng k puzzle attempts = Some (puzzle', k')"
proof (induction m arbitrary: k puzzle attempts)
  case 0
  then show ?case by simp
next
  case (Suc m)
  show ?case
  proof (cases "attempts > 0")
    case False
    then show ?thesis by simp
  next
    case True
    define row where "row = randomBelow rng k 9"
    define col where "col = randomBelow rng (k + 1) 9"
    have rc: "row < 9" "col < 9" by (simp_all add: row_def col_def randomBelow_lt)
    define X where "X = pickAt rng (k + 2) ` {..<m}"
    define F where "F = {q \<in> set positions. cellAt puzzle q \<noteq> None}"
    have fin: "finite F" by (simp add: F_def)
    have q0: "pickAt rng k 0 = (row, col)" by (simp add: pickAt_0 row_def col_def)
    from Suc.prems(2) have le: "attempts \<le> card (insert (row, col) X \<inter> F)"
      unfolding pickAt_shift q0 X_def F_def .
    show ?thesis
    proof (cases "puzzle ! row ! col \<noteq> None")
      case False
      then have "(row, col) \<notin> F" by (simp add: F_def cellAt_def)
      then have "insert (row, col) X \<inter> F = X \<inter> F" by auto
      with le have "attempts \<le> card (X \<inter> F)" by simp
      from Suc.IH [OF Suc.prems(1) this [unfolded X_def F_def]] False True
      show ?thesis by (simp add: row_def col_def Let_def)
    next
      case filled: True
      let ?p = "setCell puzzle row col None"
      have F': "{q \<in> set positions. cellAt ?p q \<noteq> None} = F - {(row, col)}"
        unfolding F_def using cellAt_setCell [OF Suc.prems(1) rc, of _ None]
        by (auto split: if_splits)
      have "(insert (row, col) X \<inter> F) - {(row, col)} \<subseteq> X \<inter> (F - {(row, col)})" by auto
      moreover have "finite (X \<inter> (F - {(row, col)}))" using fin by simp
      ultimately have "card ((insert (row, col) X \<inter> F) - {(row, col)}) \<le> card (X \<inter> (F - {(row, col)}))"
        by (intro card_mono)
      moreover have "card (insert (row, col) X \<inter> F) - 1 \<le> card ((insert (row, col) X \<inter> F) - {(row, col)})"
        by (simp add: card_Diff_singleton_if)
      ultimately have "attempts - 1 \<le> card (X \<inter> (F - {(row, col)}))" using le by linarith
      then have "attempts - 1 \<le> card (pickAt rng (k + 2) ` {..<m} \<inter>
          {q \<in> set positions. cellAt ?p q \<noteq> None})"
        unfolding F' X_def .
      from Suc.IH [OF grid9_setCell [OF Suc.prems(1)] this] filled True
      show ?thesis by (simp add: row_def col_def Let_def)
    qed
  qed
qed

lemma pickAt_in_positions: "pickAt rng k t \<in> set positions"
  by (simp add: in_positions pickAt_def randomBelow_lt)

lemma pickedCells_card: "length (pickedCells rng k m) = card (pickAt rng k ` {..<m})"
proof -
  have "set (map (pickAt rng k) [0..<m]) = pickAt rng k ` {..<m}"
    by (simp add: lessThan_atLeast0)
  then show ?thesis by (simp add: pickedCells_def length_remdups_card_conv)
qed

lemma createPuzzle_result:
  assumes "grid9 solved" "createPuzzle fuel rng k solved d = Some (p, k')"
  shows "grid9 p \<and> filledCount p + R d = filledCount solved \<and>
     (\<forall>r<9. \<forall>c<9. p ! r ! c = None \<or> p ! r ! c = solved ! r ! c)"
proof -
  from assms(2) have "carveLoop fuel rng k solved (R d) = Some (p, k')"
    by (simp add: createPuzzle_def jsonCopy_id removals_R)
  from carveLoop_result [OF this assms(1)] show ?thesis .
qed

lemma createPuzzle_returns:
  assumes "grid9 solved" "isFull solved" "R d \<le> length (pickedCells rng k m)"
  shows "\<exists>p k'. createPuzzle m rng k solved d = Some (p, k')"
proof -
  from assms(2) have "{q \<in> set positions. cellAt solved q \<noteq> None} = set positions"
    by (auto simp: isFull_def list_all_iff)
  moreover have "pickAt rng k ` {..<m} \<subseteq> set positions"
    using pickAt_in_positions by blast
  ultimately have "pickAt rng k ` {..<m} \<inter> {q \<in> set positions. cellAt solved q \<noteq> None}
      = pickAt rng k ` {..<m}" by blast
  with assms(3) have "R d \<le> card (pickAt rng k ` {..<m} \<inter>
      {q \<in> set positions. cellAt solved q \<noteq> None})" by (simp add: pickedCells_card)
  from carveLoop_returns [OF assms(1) this]
  show ?thesis by (simp add: createPuzzle_def jsonCopy_id removals_R)
qed

lemma isFull_solvedExample: "isFull solvedExample"
  by code_simp

lemma sweep_picks: "R Easy \<le> length (pickedCells sweepRnd 0 35)"
  by code_simp

subsection \<open>C3: the number of clues a carved puzzle keeps\<close>

text \<open>
  C3: for every completely filled 9x9 grid and every difficulty \<open>d\<close>, a puzzle
  returned by \<open>createPuzzle\<close> has exactly \<open>81 - R d\<close> filled cells, \<open>R d\<close> cells
  having been cleared, with \<open>R Easy = 35\<close>, \<open>R Medium = 45\<close>, \<open>R Hard = 55\<close>.
  The loop draws cells until it has found \<open>R d\<close> filled ones, so it returns as
  soon as the random source has produced \<open>R d\<close> distinct cells: within \<open>m\<close>
  iterations if the first \<open>m\<close> picks contain that many.
\<close>

theorem createPuzzle_filledCount:
  assumes "grid9 solved" "isFull solved"
  shows "(\<forall>fuel p k'. createPuzzle fuel rng k solved d = Some (p, k') \<longrightarrow>
            filledCount p = 81 - R d \<and> emptyCount p = R d) \<and>
     (R d \<le> length (pickedCells rng k m) \<longrightarrow>
        (\<exists>p k'. createPuzzle m rng k solved d = Some (p, k')))"
proof (intro conjI allI impI)
  fix fuel p k' assume "createPuzzle fuel rng k solved d = Some (p, k')"
  from createPuzzle_result [OF assms(1) this] filledCount_full [OF assms(2)]
  have "filledCount p + R d = 81" by simp
  with filled_plus_empty [of p] show "filledCount p = 81 - R d" "emptyCount p = R d"
    by linarith+
next
  assume "R d \<le> length (pickedCells rng k m)"
  with assms show "\<exists>p k'. createPuzzle m rng k solved d = Some (p, k')"
    by (rule createPuzzle_returns)
qed

theorem createPuzzle_filledCount_witness:
  "grid9 solvedExample \<and> isFull solvedExample \<and> R Easy \<le> length (pickedCells sweepRnd 0 35) \<and>
   (\<exists>p k'. createPuzzle 35 sweepRnd 0 solvedExample Easy = Some (p, k') \<and> filledCount p = 46 \<and>
      emptyCount p = 35)"
proof -
  note t = createPuzzle_filledCount [OF grid9_solvedExample isFull_solvedExample,
      of sweepRnd 0 Easy 35]
  from t sweep_picks obtain p k' where
    r: "createPuzzle 35 sweepRnd 0 solvedExample Easy = Some (p, k')" by blast
  with t have "filledCount p = 81 - R Easy \<and> emptyCount p = R Easy" by blast
  with r grid9_solvedExample isFull_solvedExample sweep_picks show ?thesis by simp
qed

subsection \<open>Filling a puzzle from its solution; more fuel\<close>

lemma fillFrom_same:
  assumes p: "grid9 puzzle" and s: "grid9 solution"
    and c: "\<forall>r<9. \<forall>c<9. puzzle ! r ! c = None \<or> puzzle ! r ! c = solution ! r ! c"
  shows "fillFrom puzzle solution = solution"
proof (rule nth_equalityI)
  from p s show l: "length (fillFrom puzzle solution) = length solution"
    by (simp add: fillFrom_def grid9_def)
  fix r assume "r < length (fillFrom puzzle solution)"
  with l s have r: "r < 9" by (simp add: grid9_def)
  with p s have lr: "length (puzzle ! r) = 9" "length (solution ! r) = 9"
    "r < length puzzle" "r < length solution"
    by (simp_all add: grid9_def list_all_iff)
  let ?f = "\<lambda>p s. case p of None \<Rightarrow> s | Some v \<Rightarrow> Some v"
  have aux: "x = None \<or> x = y \<Longrightarrow> ?f x y = y" for x y :: cell
    by (auto split: option.splits)
  have row: "fillFrom puzzle solution ! r = map2 ?f (puzzle ! r) (solution ! r)"
    using lr(3,4) by (simp add: fillFrom_def)
  show "fillFrom puzzle solution ! r = solution ! r"
    unfolding row
  proof (rule nth_equalityI)
    show "length (map2 ?f (puzzle ! r) (solution ! r)) = length (solution ! r)"
      using lr by simp
    fix i assume "i < length (map2 ?f (puzzle ! r) (solution ! r))"
    with lr have i: "i < 9" by simp
    from c r i have "puzzle ! r ! i = None \<or> puzzle ! r ! i = solution ! r ! i" by simp
    then have "?f (puzzle ! r ! i) (solution ! r ! i) = solution ! r ! i"
      by (rule aux)
    with lr i show "map2 ?f (puzzle ! r) (solution ! r) ! i = solution ! r ! i" by simp
  qed
qed

lemma checkSolution_full_conflictFree:
  "isFull board \<Longrightarrow> conflictFree board \<Longrightarrow> checkSolution board"
  unfolding checkSolution_scan isFull_iff conflictFree_iff
  using isCellInConflict_scan by simp

text \<open>A result with more fuel: what a run returns it returns with any larger fuel.\<close>

lemma tryNumbers_mono:
  assumes "\<And>k b x. rec k b = Some x \<Longrightarrow> rec' k b = Some x"
  shows "tryNumbers rec k board row col nums = Some x \<Longrightarrow>
     tryNumbers rec' k board row col nums = Some x"
proof (induction nums arbitrary: k board)
  case Nil
  then show ?case by simp
next
  case (Cons num rest)
  show ?case
  proof (cases "isValidPlacement board row col num")
    case False
    with Cons show ?thesis by simp
  next
    case True
    with Cons.prems obtain r1 b1 k1 where
      r1: "rec k (setCell board row col (Some num)) = Some (r1, b1, k1)"
      by (cases "rec k (setCell board row col (Some num))") auto
    from assms [OF r1] have r1': "rec' k (setCell board row col (Some num)) = Some (r1, b1, k1)" .
    show ?thesis
    proof (cases r1)
      case True
      with r1 \<open>isValidPlacement board row col num\<close> Cons.prems
      have "x = (True, b1, k1)" by simp
      with r1' True \<open>isValidPlacement board row col num\<close> show ?thesis by simp
    next
      case False
      with r1 \<open>isValidPlacement board row col num\<close> Cons.prems
      have "tryNumbers rec k1 (setCell b1 row col None) row col rest = Some x" by simp
      from Cons.IH [OF this] r1' False \<open>isValidPlacement board row col num\<close>
      show ?thesis by simp
    qed
  qed
qed

lemma generateSolution_Suc:
  "generateSolution fuel rng k board = Some x \<Longrightarrow> generateSolution (Suc fuel) rng k board = Some x"
proof (induction fuel arbitrary: k board x)
  case 0
  then show ?case by simp
next
  case (Suc fuel)
  show ?case
  proof (cases "findEmptyCell board")
    case None
    with Suc.prems show ?thesis by simp
  next
    case (Some p)
    obtain row col where p: "p = (row, col)" by (cases p)
    obtain numbers k1 where sh: "shuffle rng k [1, 2, 3, 4, 5, 6, 7, 8, 9] 8 = (numbers, k1)"
      by (cases "shuffle rng k [1, 2, 3, 4, 5, 6, 7, 8, 9] 8")
    from Suc.prems Some p sh
    have "tryNumbers (generateSolution fuel rng) k1 board row col numbers = Some x" by simp
    then have "tryNumbers (generateSolution (Suc fuel) rng) k1 board row col numbers = Some x"
      by (rule tryNumbers_mono [rotated]) (rule Suc.IH)
    with Some p sh show ?thesis by simp
  qed
qed

lemma generateSolution_more_fuel:
  "generateSolution fuel rng k board = Some x \<Longrightarrow> generateSolution (fuel + n) rng k board = Some x"
  by (induction n) (simp_all add: generateSolution_Suc del: generateSolution.simps)

subsection \<open>C7: the round trip\<close>

lemma carved_refilled:
  assumes "grid9 board" "cellsInRange board" "conflictFree board"
    and "generateSolution fuel rng k board = Some (True, S, k1)"
    and "createPuzzle fuel' rng' k' S Easy = Some (P, k2)"
  shows "filledCount P = 46 \<and> checkSolution (fillFrom P S)"
proof -
  from generateSolution_sound [OF assms(1-4)]
  have s: "grid9 S" "conflictFree S" "isFull S" by simp_all
  note cr = createPuzzle_result [OF s(1) assms(5)]
  note p1 = cr [THEN conjunct1]
  note p2 = cr [THEN conjunct2, THEN conjunct1]
  note p3 = cr [THEN conjunct2, THEN conjunct2]
  from p2 filledCount_full [OF s(3)] have "filledCount P = 46" by simp
  moreover from fillFrom_same [OF p1 s(1) p3] checkSolution_full_conflictFree [OF s(3,2)]
  have "checkSolution (fillFrom P S)" by simp
  ultimately show ?thesis ..
qed

text \<open>
  C7: let \<open>S\<close> be a grid on which \<open>generateSolution\<close> succeeded, started as the
  engine starts it on the empty grid (or on any grid without conflicts), and
  \<open>P\<close> a puzzle \<open>createPuzzle\<close> carved from \<open>S\<close> with difficulty Easy. Then \<open>P\<close>
  has 46 filled cells, and \<open>P\<close> with every empty cell filled with the value of
  \<open>S\<close> at that position satisfies \<open>checkSolution\<close>. (For the empty grid the start
  conditions hold: \<open>grid9_emptyBoard\<close>, \<open>emptyBoard_ok\<close>; for the whole of
  \<open>generateSudoku\<close>: \<open>generateSudoku_roundTrip\<close> below.)
\<close>

theorem roundTrip_checkSolution:
  assumes "grid9 board" "cellsInRange board" "conflictFree board"
    and "generateSolution fuel rng k board = Some (True, S, k1)"
    and "createPuzzle fuel' rng' k' S Easy = Some (P, k2)"
  shows "filledCount P = 46 \<and> checkSolution (fillFrom P S)"
  using assms by (rule carved_refilled)

theorem roundTrip_checkSolution_witness:
  "grid9 lastTwoOpen \<and> cellsInRange lastTwoOpen \<and> conflictFree lastTwoOpen \<and>
   generateSolution 3 zeroRnd 0 lastTwoOpen = Some (True, solvedExample, 16) \<and>
   (\<exists>P k2. createPuzzle 35 sweepRnd 16 solvedExample Easy = Some (P, k2) \<and>
      filledCount P = 46 \<and> checkSolution (fillFrom P solvedExample))"
proof -
  from lastTwoOpen_ok have h: "grid9 lastTwoOpen" "cellsInRange lastTwoOpen"
    "conflictFree lastTwoOpen" by simp_all
  have "R Easy \<le> length (pickedCells sweepRnd 16 35)" by code_simp
  from createPuzzle_returns [OF grid9_solvedExample isFull_solvedExample this]
  obtain P k2 where c: "createPuzzle 35 sweepRnd 16 solvedExample Easy = Some (P, k2)" by blast
  from roundTrip_checkSolution [OF h lastTwoOpen_run c] c h lastTwoOpen_run
  show ?thesis by blast
qed

text \<open>
  The same for \<open>generateSudoku\<close>, which starts from the empty grid and carves a
  copy of what the generator left.
\<close>

lemma generateSudoku_roundTrip:
  assumes "generateSudoku fuel rng k Easy = Some (P, S)"
  shows "filledCount P = 46 \<and> checkSolution (fillFrom P S)"
proof -
  from assms obtain found k1 where
    g: "generateSolution fuel rng k emptyBoard = Some (found, S, k1)"
    by (auto simp: generateSudoku_def emptyBoard_def split: option.splits)
  with assms obtain k2 where c: "createPuzzle fuel rng k1 S Easy = Some (P, k2)"
    by (auto simp: generateSudoku_def emptyBoard_def jsonCopy_id split: option.splits)
  have "emptyCount emptyBoard < fuel + 82" using emptyCount_le [of emptyBoard] by simp
  from generateSolution_complete [OF grid9_emptyBoard this solutionOf_emptyBoard, of rng k]
    generateSolution_more_fuel [OF g, of 82]
  have "found = True" by auto
  with g have g': "generateSolution fuel rng k emptyBoard = Some (True, S, k1)" by simp
  from emptyBoard_ok have "cellsInRange emptyBoard" "conflictFree emptyBoard" by simp_all
  from carved_refilled [OF grid9_emptyBoard this g' c] show ?thesis .
qed

subsection \<open>The store: reading boards, old objects\<close>

lemma those_map_Some:
  "(those (map f xs) = Some ys) =
     (length ys = length xs \<and> (\<forall>i<length xs. f (xs ! i) = Some (ys ! i)))"
proof (induction xs arbitrary: ys)
  case Nil
  show ?case by auto
next
  case (Cons x xs)
  show ?case
  proof (cases "f x")
    case None
    then show ?thesis by (auto simp: All_less_Suc2)
  next
    case (Some y)
    show ?thesis
    proof (cases "those (map f xs)")
      case None
      with Some Cons.IH [of "tl ys"] show ?thesis
        by (cases ys) (auto simp: All_less_Suc2)
    next
      case s: (Some zs)
      with Some Cons.IH [of zs] Cons.IH [of "tl ys"] show ?thesis
        by (cases ys) (auto simp: All_less_Suc2)
    qed
  qed
qed

lemma rowsOf_Some: "rowsOf h b = Some rs \<Longrightarrow> b < length h \<and> h ! b = Refs rs"
  by (auto simp: rowsOf_def split: if_splits obj.splits)

lemma cellsOf_Some: "cellsOf h r = Some cs \<Longrightarrow> r < length h \<and> h ! r = Cells cs"
  by (auto simp: cellsOf_def split: if_splits obj.splits)

lemma keepsOld_refl: "keepsOld h h"
  by (simp add: keepsOld_def)

lemma keepsOld_trans: "keepsOld h h1 \<Longrightarrow> keepsOld h1 h2 \<Longrightarrow> keepsOld h h2"
  by (auto simp: keepsOld_def)

lemma keepsOld_rowsOf: "keepsOld h h' \<Longrightarrow> rowsOf h b = Some rs \<Longrightarrow> rowsOf h' b = Some rs"
  by (auto simp: keepsOld_def rowsOf_def split: if_splits)

lemma keepsOld_cellsOf: "keepsOld h h' \<Longrightarrow> cellsOf h r = Some cs \<Longrightarrow> cellsOf h' r = Some cs"
  by (auto simp: keepsOld_def cellsOf_def split: if_splits)

lemma keepsOld_readBoard:
  assumes "keepsOld h h'" "readBoard h b = Some B"
  shows "readBoard h' b = Some B"
proof -
  from assms(2) obtain rs where rs: "rowsOf h b = Some rs" "those (map (cellsOf h) rs) = Some B"
    by (auto simp: readBoard_def split: option.splits)
  from rs(2) have "length B = length rs" "\<forall>i<length rs. cellsOf h (rs ! i) = Some (B ! i)"
    by (simp_all add: those_map_Some)
  with assms(1) have "those (map (cellsOf h') rs) = Some B"
    by (simp add: those_map_Some keepsOld_cellsOf)
  with keepsOld_rowsOf [OF assms(1) rs(1)] show ?thesis by (simp add: readBoard_def)
qed

lemma keepsOld_alloc: "alloc h ob = (h', r) \<Longrightarrow> keepsOld h h' \<and> r = length h \<and> length h' = Suc (length h)"
  by (auto simp: alloc_def keepsOld_def nth_append)

subsection \<open>The store: the carving loop\<close>

lemma puzzleAt_rows: "puzzleAt h p rs P \<Longrightarrow> i < 9 \<Longrightarrow> cellsOf h (rs ! i) = Some (P ! i)"
  by (simp add: puzzleAt_def list_all_iff)

lemma puzzleAt_readBoard: "puzzleAt h p rs P \<Longrightarrow> readBoard h p = Some P"
  by (simp add: puzzleAt_def readBoard_def those_map_Some grid9_def list_all_iff)

lemma grid9_row: "grid9 P \<Longrightarrow> i < 9 \<Longrightarrow> length (P ! i) = 9"
  by (simp add: grid9_def list_all_iff)

lemma getCellH_at:
  assumes "puzzleAt h p rs P" "row < 9" "col < 9"
  shows "getCellH h p row col = Some (P ! row ! col)"
proof -
  from assms(1) have "rowsOf h p = Some rs" "length rs = 9" "grid9 P"
    by (simp_all add: puzzleAt_def)
  with puzzleAt_rows [OF assms(1,2)] grid9_row [of P row] assms(2,3)
  show ?thesis by (simp add: getCellH_def)
qed

lemma setCellH_at:
  assumes "puzzleAt h p rs P" "row < 9" "col < 9"
  shows "\<exists>h'. setCellH h p row col v = Some h' \<and> puzzleAt h' p rs (setCell P row col v) \<and>
     length h' = length h \<and> (\<forall>a. a \<notin> set rs \<longrightarrow> h' ! a = h ! a)"
proof -
  from assms(1) have w: "rowsOf h p = Some rs" "distinct rs" "length rs = 9" "grid9 P"
    by (simp_all add: puzzleAt_def)
  define r where "r = rs ! row"
  define h' where "h' = h[r := Cells ((P ! row)[col := v])]"
  note cr = puzzleAt_rows [OF assms(1,2)]
  from cellsOf_Some [OF cr] have r: "r < length h" "h ! r = Cells (P ! row)" by (simp_all add: r_def)
  from rowsOf_Some [OF w(1)] have p: "p < length h" "h ! p = Refs rs" by simp_all
  from r(2) p(2) have ne: "r \<noteq> p" by auto
  have set: "setCellH h p row col v = Some h'"
    using w(1,3) cr assms(2,3) grid9_row [OF w(4) assms(2)]
    by (simp add: setCellH_def h'_def r_def)
  have rows': "rowsOf h' p = Some rs"
    using p ne by (simp add: rowsOf_def h'_def)
  have cells': "cellsOf h' (rs ! i) = Some (setCell P row col v ! i)" if i: "i < 9" for i
  proof (cases "i = row")
    case True
    from w(4) assms(2) have "row < length P" by (simp add: grid9_def)
    with True r(1) show ?thesis by (simp add: cellsOf_def h'_def r_def [symmetric] setCell_def)
  next
    case False
    with w(2,3) i assms(2) have "rs ! i \<noteq> r" by (simp add: r_def nth_eq_iff_index_eq)
    moreover from False have "setCell P row col v ! i = P ! i" by (simp add: setCell_def)
    moreover from cellsOf_Some [OF puzzleAt_rows [OF assms(1) i]]
    have "rs ! i < length h" "h ! (rs ! i) = Cells (P ! i)" by simp_all
    ultimately show ?thesis by (simp add: cellsOf_def h'_def)
  qed
  have "puzzleAt h' p rs (setCell P row col v)"
    using rows' w(2,3) grid9_setCell [OF w(4)] cells' by (simp add: puzzleAt_def list_all_iff)
  moreover have "length h' = length h" by (simp add: h'_def)
  moreover have "\<forall>a. a \<notin> set rs \<longrightarrow> h' ! a = h ! a"
  proof (intro allI impI)
    fix a assume "a \<notin> set rs"
    with w(3) assms(2) have "a \<noteq> r" by (auto simp: r_def)
    then show "h' ! a = h ! a" by (simp add: h'_def)
  qed
  ultimately show ?thesis using set by blast
qed

text \<open>The loop in the store does what the loop on grids does, and writes to the puzzle's rows only.\<close>

lemma carveLoopH_sim:
  "puzzleAt h p rs P \<Longrightarrow>
   (case carveLoop fuel rng k P attempts of
      None \<Rightarrow> carveLoopH fuel rng k h p attempts = None
    | Some (P', k') \<Rightarrow>
        (\<exists>h'. carveLoopH fuel rng k h p attempts = Some (h', k') \<and> puzzleAt h' p rs P' \<and>
           length h' = length h \<and> (\<forall>a. a \<notin> set rs \<longrightarrow> h' ! a = h ! a)))"
proof (induction fuel arbitrary: k h P attempts)
  case 0
  then show ?case by simp
next
  case (Suc fuel)
  show ?case
  proof (cases "attempts > 0")
    case False
    with Suc.prems show ?thesis by simp
  next
    case True
    define row where "row = randomBelow rng k 9"
    define col where "col = randomBelow rng (k + 1) 9"
    have rc: "row < 9" "col < 9" by (simp_all add: row_def col_def randomBelow_lt)
    note get = getCellH_at [OF Suc.prems rc]
    show ?thesis
    proof (cases "P ! row ! col \<noteq> None")
      case False
      with True get have e:
        "carveLoop (Suc fuel) rng k P attempts = carveLoop fuel rng (k + 2) P attempts"
        "carveLoopH (Suc fuel) rng k h p attempts = carveLoopH fuel rng (k + 2) h p attempts"
        by (simp_all add: row_def col_def Let_def)
      show ?thesis unfolding e by (rule Suc.IH [OF Suc.prems])
    next
      case filled: True
      from setCellH_at [OF Suc.prems rc, of None] obtain h1 where
        h1: "setCellH h p row col None = Some h1" "puzzleAt h1 p rs (setCell P row col None)"
          "length h1 = length h" "\<forall>a. a \<notin> set rs \<longrightarrow> h1 ! a = h ! a" by blast
      from True filled get h1(1) have e:
        "carveLoop (Suc fuel) rng k P attempts =
           carveLoop fuel rng (k + 2) (setCell P row col None) (attempts - 1)"
        "carveLoopH (Suc fuel) rng k h p attempts =
           carveLoopH fuel rng (k + 2) h1 p (attempts - 1)"
        by (simp_all add: row_def col_def Let_def)
      note ih = Suc.IH [OF h1(2), of "k + 2" "attempts - 1"]
      show ?thesis
      proof (cases "carveLoop fuel rng (k + 2) (setCell P row col None) (attempts - 1)")
        case None
        with ih show ?thesis unfolding e by simp
      next
        case (Some x)
        obtain P' k' where x: "x = (P', k')" by (cases x)
        from ih Some x obtain h' where
          h': "carveLoopH fuel rng (k + 2) h1 p (attempts - 1) = Some (h', k')"
            "puzzleAt h' p rs P'" "length h' = length h1" "\<forall>a. a \<notin> set rs \<longrightarrow> h' ! a = h1 ! a"
          by auto
        from h'(3,4) h1(3,4) have "length h' = length h" "\<forall>a. a \<notin> set rs \<longrightarrow> h' ! a = h ! a"
          by simp_all
        with h'(1,2) Some x show ?thesis unfolding e by simp
      qed
    qed
  qed
qed

subsection \<open>The store: copying, and the whole of createPuzzle\<close>

lemma allocRows_eq:
  "allocRows h rows = (h @ map Cells rows, [length h..<length h + length rows])"
proof (induction rows arbitrary: h)
  case Nil
  show ?case by simp
next
  case (Cons row rows)
  have "[length h..<length h + length (row # rows)] =
      length h # [Suc (length h)..<Suc (length h) + length rows]"
    by (subst upt_rec) simp
  with Cons [of "h @ [Cells row]"] show ?case by (simp add: alloc_def)
qed

lemma jsonCopyH_eq:
  "readBoard h b = Some B \<Longrightarrow>
   jsonCopyH h b =
     Some (h @ map Cells B @ [Refs [length h..<length h + length B]], length h + length B)"
  by (simp add: jsonCopyH_def allocRows_eq alloc_def)

lemma copy_puzzleAt:
  assumes "grid9 B"
  shows "puzzleAt (h @ map Cells B @ [Refs [length h..<length h + length B]])
     (length h + length B) [length h..<length h + length B] B"
proof -
  from assms have l: "length B = 9" by (simp add: grid9_def)
  let ?h1 = "h @ map Cells B @ [Refs [length h..<length h + length B]]"
  have "rowsOf ?h1 (length h + length B) = Some [length h..<length h + length B]"
    by (simp add: rowsOf_def nth_append)
  moreover have "cellsOf ?h1 ([length h..<length h + length B] ! i) = Some (B ! i)"
    if "i < 9" for i
    using that l by (simp add: cellsOf_def nth_append)
  ultimately show ?thesis using assms l by (simp add: puzzleAt_def list_all_iff)
qed

lemma keepsOld_append: "keepsOld h (h @ xs)"
  by (simp add: keepsOld_def nth_append)

text \<open>
  \<open>createPuzzle\<close> in the store returns when \<open>createPuzzle\<close> on grids does, with
  the same puzzle, in a new object, and with every old object as it was.
\<close>

lemma createPuzzleH_sim:
  assumes "readBoard h b = Some B" "grid9 B"
  shows "case createPuzzle fuel rng k B d of
      None \<Rightarrow> createPuzzleH fuel rng k h b d = None
    | Some (P, k') \<Rightarrow>
        (\<exists>h' p. createPuzzleH fuel rng k h b d = Some (h', p, k') \<and> readBoard h' p = Some P \<and>
           keepsOld h h' \<and> length h \<le> p)"
proof -
  define h1 where "h1 = h @ map Cells B @ [Refs [length h..<length h + length B]]"
  define p where "p = length h + length B"
  define rs where "rs = [length h..<length h + length B]"
  have copy: "jsonCopyH h b = Some (h1, p)"
    unfolding h1_def p_def by (rule jsonCopyH_eq [OF assms(1)])
  have at: "puzzleAt h1 p rs B"
    unfolding h1_def p_def rs_def by (rule copy_puzzleAt [OF assms(2)])
  have old: "keepsOld h h1" unfolding h1_def by (rule keepsOld_append)
  have pure: "createPuzzle fuel rng k B d = carveLoop fuel rng k B (R d)"
    by (simp add: createPuzzle_def jsonCopy_id removals_R)
  have store: "createPuzzleH fuel rng k h b d =
      (case carveLoopH fuel rng k h1 p (R d) of None \<Rightarrow> None | Some (h2, k') \<Rightarrow> Some (h2, p, k'))"
    by (simp add: createPuzzleH_def copy removals_R)
  note sim = carveLoopH_sim [OF at, of fuel rng k "R d"]
  show ?thesis
  proof (cases "carveLoop fuel rng k B (R d)")
    case None
    with sim show ?thesis unfolding pure store by simp
  next
    case (Some x)
    obtain P k' where x: "x = (P, k')" by (cases x)
    from sim Some x obtain h2 where
      h2: "carveLoopH fuel rng k h1 p (R d) = Some (h2, k')" "puzzleAt h2 p rs P"
        "length h2 = length h1" "\<forall>a. a \<notin> set rs \<longrightarrow> h2 ! a = h1 ! a" by auto
    have "keepsOld h h2"
      unfolding keepsOld_def
    proof (intro conjI allI impI)
      from old h2(3) show "length h \<le> length h2" by (simp add: keepsOld_def)
      fix a assume a: "a < length h"
      then have "a \<notin> set rs" by (simp add: rs_def)
      with h2(4) have "h2 ! a = h1 ! a" by simp
      with old a show "h2 ! a = h ! a" by (simp add: keepsOld_def)
    qed
    moreover have "length h \<le> p" by (simp add: p_def)
    moreover note puzzleAt_readBoard [OF h2(2)]
    ultimately show ?thesis using h2(1) Some x unfolding pure store by simp
  qed
qed

subsection \<open>C5: the carver leaves its input as it was\<close>

text \<open>
  C5: for every 9x9 grid \<open>B\<close> held by the board \<open>solvedBoard\<close> of a store \<open>h\<close> and
  every difficulty, after \<open>createPuzzle\<close> has returned, \<open>solvedBoard\<close> is still the
  grid \<open>B\<close>, cell for cell: every object that existed before the call is
  unchanged, and the puzzle is a new object, holding the grid that
  \<open>createPuzzle\<close> computes from \<open>B\<close>. The call returns under the condition of C3
  (the cells picked include \<open>R d\<close> distinct ones).
\<close>

theorem createPuzzle_keeps_input:
  assumes "readBoard h solvedBoard = Some B" "grid9 B"
  shows "(\<forall>fuel h' puzzle k'.
            createPuzzleH fuel rng k h solvedBoard d = Some (h', puzzle, k') \<longrightarrow>
            readBoard h' solvedBoard = Some B \<and>
            length h \<le> length h' \<and> (\<forall>a<length h. h' ! a = h ! a) \<and>
            length h \<le> puzzle \<and>
            (\<exists>P. createPuzzle fuel rng k B d = Some (P, k') \<and> readBoard h' puzzle = Some P)) \<and>
     (isFull B \<and> R d \<le> length (pickedCells rng k m) \<longrightarrow>
        (\<exists>h' puzzle k'. createPuzzleH m rng k h solvedBoard d = Some (h', puzzle, k')))"
proof (intro conjI allI impI)
  fix fuel h' puzzle k'
  assume run: "createPuzzleH fuel rng k h solvedBoard d = Some (h', puzzle, k')"
  note sim = createPuzzleH_sim [OF assms, of fuel rng k d]
  from sim run obtain P where
    P: "createPuzzle fuel rng k B d = Some (P, k')" "readBoard h' puzzle = Some P"
      "keepsOld h h'" "length h \<le> puzzle"
    by (cases "createPuzzle fuel rng k B d") auto
  from keepsOld_readBoard [OF P(3) assms(1)]
  show "readBoard h' solvedBoard = Some B" .
  from P(3) show "length h \<le> length h'" by (simp add: keepsOld_def)
  from P(4) show "length h \<le> puzzle" .
  from P(1,2) show "\<exists>P. createPuzzle fuel rng k B d = Some (P, k') \<and> readBoard h' puzzle = Some P"
    by blast
  fix a assume "a < length h"
  with P(3) show "h' ! a = h ! a" by (simp add: keepsOld_def)
next
  assume "isFull B \<and> R d \<le> length (pickedCells rng k m)"
  then have "isFull B" "R d \<le> length (pickedCells rng k m)" by simp_all
  from createPuzzle_returns [OF assms(2) this] obtain P k' where
    "createPuzzle m rng k B d = Some (P, k')" by blast
  with createPuzzleH_sim [OF assms, of m rng k d]
  show "\<exists>h' puzzle k'. createPuzzleH m rng k h solvedBoard d = Some (h', puzzle, k')"
    by auto
qed

text \<open>
  The copy is what protects the input: the same loop run on the board itself
  changes it.
\<close>

lemma carve_in_place:
  "(case carveLoopH 35 sweepRnd 0 solvedHeap 9 35 of
      None \<Rightarrow> False
    | Some (h', k') \<Rightarrow> readBoard h' 9 \<noteq> Some solvedExample)"
  by code_simp

lemma solvedHeap_board: "readBoard solvedHeap 9 = Some solvedExample"
  by code_simp

theorem createPuzzle_keeps_input_witness:
  "readBoard solvedHeap 9 = Some solvedExample \<and> grid9 solvedExample \<and>
   isFull solvedExample \<and> R Easy \<le> length (pickedCells sweepRnd 0 35) \<and>
   (\<exists>h' puzzle k'. createPuzzleH 35 sweepRnd 0 solvedHeap 9 Easy = Some (h', puzzle, k') \<and>
      readBoard h' 9 = Some solvedExample \<and> length solvedHeap \<le> puzzle)"
proof -
  note t = createPuzzle_keeps_input [OF solvedHeap_board grid9_solvedExample,
      of sweepRnd 0 Easy 35]
  from t isFull_solvedExample sweep_picks obtain h' puzzle k' where
    r: "createPuzzleH 35 sweepRnd 0 solvedHeap 9 Easy = Some (h', puzzle, k')" by blast
  with t have "readBoard h' 9 = Some solvedExample \<and> length solvedHeap \<le> puzzle" by blast
  with r solvedHeap_board grid9_solvedExample isFull_solvedExample sweep_picks
  show ?thesis by blast
qed

end
